theory Spec2Isabelle
  imports Main "HOL-Library.AList"
begin

section \<open>Image optimizer: a shallow embedding of \<^verbatim>\<open>image_optimizer.py\<close>\<close>

text \<open>
  The script scans a directory tree for JPG/JPEG/PNG images, converts each of them to
  WebP and rewrites the references to them in code files. The embedding follows the
  source function by function. What the source takes from outside (the Pillow codec,
  the operating system's answers to open, copy, unlink and \<^verbatim>\<open>rglob\<close>, the
  location of the script) is a field of the record \<open>world\<close>; the file system the
  script reads and changes is a value of type \<open>filesystem\<close> that every operation takes
  and returns. An exception of the source is a value of type \<open>py_error\<close>.

  Characters are code points below 256 (the type \<open>char\<close>); a file holds the text
  that reading it yields, so the choice of an encoding is not part of the model.
\<close>

subsection \<open>Exceptions\<close>

datatype py_error =
    ValueError          \<comment> \<open>\<^verbatim>\<open>with_suffix\<close> on a path with an empty name or with a bad suffix\<close>
  | OSError             \<comment> \<open>a file that is missing or may not be read, written or removed\<close>
  | ImageError          \<comment> \<open>Pillow cannot decode or encode the image\<close>
  | TemplateError       \<comment> \<open>\<^verbatim>\<open>re.error\<close> or \<^verbatim>\<open>IndexError\<close> from the replacement template\<close>
  | ZeroDivisionError

subsection \<open>Characters and \<^verbatim>\<open>str.lower\<close>\<close>

definition bslash :: char where
  "bslash = CHR 0x5C"

text \<open>
  Below code point 256 the cased characters are \<open>A\<close>..\<open>Z\<close> and the Latin-1 capitals
  \<open>0xC0\<close>..\<open>0xDE\<close> without the multiplication sign \<open>0xD7\<close>; each has its lower-case
  form 32 code points above.
\<close>

definition lower_char :: "char \<Rightarrow> char" where
  "lower_char c =
     (let n = (of_char c :: nat)
      in if (65 \<le> n \<and> n \<le> 90) \<or> (192 \<le> n \<and> n \<le> 222 \<and> n \<noteq> 215)
         then char_of (n + 32) else c)"

definition lower :: "string \<Rightarrow> string" where
  "lower s = map lower_char s"

subsection \<open>Paths (\<^verbatim>\<open>pathlib.Path\<close>)\<close>

text \<open>
  A path is the list of its \<^verbatim>\<open>parts\<close>, as pathlib has it: the root \<open>''/''\<close> first
  when the path is absolute, then one string per component.
\<close>

type_synonym path = "string list"

definition name :: "path \<Rightarrow> string" where
  "name p = (if p = [] \<or> p = [''/''] then [] else last p)"

definition parent :: "path \<Rightarrow> path" where
  "parent p = (if p = [''/''] then p else butlast p)"

fun rfind :: "char \<Rightarrow> string \<Rightarrow> nat option" where
  "rfind c [] = None"
| "rfind c (x # xs) =
     (case rfind c xs of
        Some i \<Rightarrow> Some (Suc i)
      | None \<Rightarrow> if x = c then Some 0 else None)"

definition suffix_of :: "string \<Rightarrow> string" where
  "suffix_of nm =
     (case rfind (CHR ''.'') nm of
        Some i \<Rightarrow> if 0 < i \<and> i < length nm - 1 then drop i nm else []
      | None \<Rightarrow> [])"

definition stem_of :: "string \<Rightarrow> string" where
  "stem_of nm =
     (case rfind (CHR ''.'') nm of
        Some i \<Rightarrow> if 0 < i \<and> i < length nm - 1 then take i nm else nm
      | None \<Rightarrow> nm)"

definition suffix :: "path \<Rightarrow> string" where
  "suffix p = suffix_of (name p)"

definition stem :: "path \<Rightarrow> string" where
  "stem p = stem_of (name p)"

definition with_suffix :: "path \<Rightarrow> string \<Rightarrow> py_error + path" where
  "with_suffix p s =
     (if CHR ''/'' \<in> set s then Inl ValueError
      else if (s \<noteq> [] \<and> hd s \<noteq> CHR ''.'') \<or> s = ''.'' then Inl ValueError
      else if name p = [] then Inl ValueError
      else Inr (butlast p @
                [if suffix p = [] then name p @ s
                 else take (length (name p) - length (suffix p)) (name p) @ s]))"

subsection \<open>Configuration\<close>

definition IMAGE_EXTENSIONS :: "string set" where
  "IMAGE_EXTENSIONS = {''.jpg'', ''.jpeg'', ''.png''}"

definition CODE_EXTENSIONS :: "string set" where
  "CODE_EXTENSIONS = {''.html'', ''.htm'', ''.php'', ''.css'', ''.js'', ''.jsx'', ''.tsx'',
     ''.vue'', ''.svelte'', ''.md'', ''.markdown''}"

definition EXCLUDE_DIRS :: "string set" where
  "EXCLUDE_DIRS = {''.git'', ''node_modules'', ''__pycache__'', ''.venv'', ''venv'', ''env'',
     ''.env'', ''vendor'', ''dist'', ''build''}"

subsection \<open>The world outside the script and the file system\<close>

text \<open>
  \<open>codec data quality\<close> is what Pillow produces from the bytes of an image
  (\<^verbatim>\<open>Image.open\<close>, \<^verbatim>\<open>convert\<close>, \<^verbatim>\<open>save(..., 'WEBP', quality=quality, method=6)\<close>),
  or \<open>None\<close> when it raises. \<open>rglob files root\<close> is the sequence that
  \<^verbatim>\<open>root.rglob('*')\<close> yields. \<open>resolve s\<close> is \<^verbatim>\<open>Path(s).resolve()\<close>,
  \<open>script_file\<close> is \<^verbatim>\<open>__file__\<close> and \<open>cwd\<close> the directory the program is invoked from.
\<close>

record world =
  codec :: "string \<Rightarrow> int \<Rightarrow> string option"
  readable :: "path \<Rightarrow> bool"
  writable :: "path \<Rightarrow> bool"
  removable :: "path \<Rightarrow> bool"
  dir_exists :: "path \<Rightarrow> bool"
  rglob :: "(path \<rightharpoonup> string) \<Rightarrow> path \<Rightarrow> path list"
  resolve :: "string \<Rightarrow> path"
  script_file :: string
  cwd :: path

text \<open>Every operation that changes the file system is recorded in \<open>effects\<close>.\<close>

datatype effect = Copied path path | Saved path | Wrote path | Unlinked path

record filesystem =
  files :: "path \<rightharpoonup> string"
  effects :: "effect list"

definition is_file :: "filesystem \<Rightarrow> path \<Rightarrow> bool" where
  "is_file fs p = (files fs p \<noteq> None)"

definition path_exists :: "world \<Rightarrow> filesystem \<Rightarrow> path \<Rightarrow> bool" where
  "path_exists w fs p = (is_file fs p \<or> dir_exists w p)"

definition st_size :: "filesystem \<Rightarrow> path \<Rightarrow> py_error + nat" where
  "st_size fs p = (case files fs p of None \<Rightarrow> Inl OSError | Some data \<Rightarrow> Inr (length data))"

definition copy2 :: "world \<Rightarrow> filesystem \<Rightarrow> path \<Rightarrow> path \<Rightarrow> py_error + filesystem" where
  "copy2 w fs src dst =
     (case files fs src of
        None \<Rightarrow> Inl OSError
      | Some data \<Rightarrow>
          if readable w src \<and> writable w dst
          then Inr (fs\<lparr>files := (files fs)(dst \<mapsto> data), effects := effects fs @ [Copied src dst]\<rparr>)
          else Inl OSError)"

definition read_text :: "world \<Rightarrow> filesystem \<Rightarrow> path \<Rightarrow> py_error + string" where
  "read_text w fs p =
     (case files fs p of
        None \<Rightarrow> Inl OSError
      | Some content \<Rightarrow> if readable w p then Inr content else Inl OSError)"

definition write_text :: "world \<Rightarrow> filesystem \<Rightarrow> path \<Rightarrow> string \<Rightarrow> py_error + filesystem" where
  "write_text w fs p content =
     (if writable w p
      then Inr (fs\<lparr>files := (files fs)(p \<mapsto> content), effects := effects fs @ [Wrote p]\<rparr>)
      else Inl OSError)"

definition unlink :: "world \<Rightarrow> filesystem \<Rightarrow> path \<Rightarrow> py_error + filesystem" where
  "unlink w fs p =
     (if is_file fs p \<and> removable w p
      then Inr (fs\<lparr>files := (files fs)(p := None), effects := effects fs @ [Unlinked p]\<rparr>)
      else Inl OSError)"

subsection \<open>\<^verbatim>\<open>get_script_directory\<close>, \<^verbatim>\<open>find_images\<close>, \<^verbatim>\<open>find_code_files\<close>\<close>

definition get_script_directory :: "world \<Rightarrow> path" where
  "get_script_directory w = parent (resolve w (script_file w))"

definition excluded :: "path \<Rightarrow> bool" where
  "excluded item = (set item \<inter> EXCLUDE_DIRS \<noteq> {})"

definition find_images :: "world \<Rightarrow> filesystem \<Rightarrow> path \<Rightarrow> path list" where
  "find_images w fs root_dir =
     filter (\<lambda>item. \<not> excluded item \<and> is_file fs item \<and> lower (suffix item) \<in> IMAGE_EXTENSIONS)
       (rglob w (files fs) root_dir)"

definition find_code_files :: "world \<Rightarrow> filesystem \<Rightarrow> path \<Rightarrow> path list" where
  "find_code_files w fs root_dir =
     filter (\<lambda>item. \<not> excluded item \<and> is_file fs item \<and> lower (suffix item) \<in> CODE_EXTENSIONS)
       (rglob w (files fs) root_dir)"

subsection \<open>\<^verbatim>\<open>convert_to_webp\<close>\<close>

text \<open>Lines 87 to 91: the backup, made only when no backup sibling exists.\<close>

definition make_backup :: "world \<Rightarrow> filesystem \<Rightarrow> path \<Rightarrow> py_error + filesystem" where
  "make_backup w fs image_path =
     (case with_suffix image_path (suffix image_path @ ''.backup'') of
        Inl e \<Rightarrow> Inl e
      | Inr backup_path \<Rightarrow>
          if path_exists w fs backup_path then Inr fs
          else copy2 w fs image_path backup_path)"

text \<open>Lines 94 to 104: open the image, convert it and save it as WebP. A step that
  raises leaves the file system as it was before the step.\<close>

definition open_and_save ::
    "world \<Rightarrow> filesystem \<Rightarrow> path \<Rightarrow> path \<Rightarrow> int \<Rightarrow> py_error + filesystem" where
  "open_and_save w fs image_path webp_path q =
     (case files fs image_path of
        None \<Rightarrow> Inl OSError
      | Some data \<Rightarrow>
          if readable w image_path then
            (case codec w data q of
               None \<Rightarrow> Inl ImageError
             | Some out \<Rightarrow>
                 if writable w webp_path
                 then Inr (fs\<lparr>files := (files fs)(webp_path \<mapsto> out),
                              effects := effects fs @ [Saved webp_path]\<rparr>)
                 else Inl OSError)
          else Inl OSError)"

text \<open>
  \<^verbatim>\<open>with_suffix('.webp')\<close> on line 83 is outside the \<^verbatim>\<open>try\<close>: its exception leaves
  the function. Everything raised on lines 86 to 106 is caught on line 108.
\<close>

definition convert_to_webp ::
    "world \<Rightarrow> filesystem \<Rightarrow> path \<Rightarrow> int \<Rightarrow> bool \<Rightarrow> py_error + (filesystem \<times> path \<times> bool)" where
  "convert_to_webp w fs image_path q bkp =
     (case with_suffix image_path ''.webp'' of
        Inl e \<Rightarrow> Inl e
      | Inr webp_path \<Rightarrow>
          (case (if bkp then make_backup w fs image_path else Inr fs) of
             Inl e \<Rightarrow> Inr (fs, webp_path, False)
           | Inr fs1 \<Rightarrow>
               (case open_and_save w fs1 image_path webp_path q of
                  Inl e \<Rightarrow> Inr (fs1, webp_path, False)
                | Inr fs2 \<Rightarrow> Inr (fs2, webp_path, True))))"

subsection \<open>The conversion loop of \<^verbatim>\<open>main\<close> (lines 275 to 306)\<close>

record args =
  quality :: int
  dry_run :: bool
  backup :: bool
  verbose :: bool
  delete_originals :: bool
  arg_path :: "string option"

text \<open>\<open>image_mappings\<close> is a Python dict: an association list in insertion order,
  where assigning to a key that is present replaces its value in place (\<open>AList.update\<close>).\<close>

record tally =
  converted :: "(path \<times> path) list"
  failed :: "path list"
  total_original_size :: nat
  total_new_size :: nat
  image_mappings :: "(string \<times> string) list"

definition empty_tally :: tally where
  "empty_tally = \<lparr>converted = [], failed = [], total_original_size = 0, total_new_size = 0,
     image_mappings = []\<rparr>"

text \<open>One pass through the body of the loop; \<open>Inl\<close> is an exception that leaves \<^verbatim>\<open>main\<close>
  (a failing \<^verbatim>\<open>stat\<close>, or the division by \<^verbatim>\<open>original_size\<close> on line 303).\<close>

definition convert_one ::
    "world \<Rightarrow> args \<Rightarrow> path \<Rightarrow> filesystem \<times> tally \<Rightarrow> filesystem \<times> (py_error + tally)" where
  "convert_one w a image_path st =
     (case st of (fs, t) \<Rightarrow>
       (case st_size fs image_path of
          Inl e \<Rightarrow> (fs, Inl e)
        | Inr original_size \<Rightarrow>
            let t1 = t\<lparr>total_original_size := total_original_size t + original_size\<rparr>
            in if dry_run a then
                 (case with_suffix image_path ''.webp'' of
                    Inl e \<Rightarrow> (fs, Inl e)
                  | Inr webp_path \<Rightarrow>
                      (fs, Inr (t1\<lparr>converted := converted t1 @ [(image_path, webp_path)],
                                   image_mappings :=
                                     AList.update (name image_path) (name webp_path)
                                       (image_mappings t1)\<rparr>)))
               else
                 (case convert_to_webp w fs image_path (quality a) (backup a) of
                    Inl e \<Rightarrow> (fs, Inl e)
                  | Inr (fs1, webp_path, success) \<Rightarrow>
                      if success then
                        (case st_size fs1 webp_path of
                           Inl e \<Rightarrow> (fs1, Inl e)
                         | Inr new_size \<Rightarrow>
                             if verbose a \<and> original_size = 0 then (fs1, Inl ZeroDivisionError)
                             else (fs1, Inr (t1\<lparr>total_new_size := total_new_size t1 + new_size,
                                     converted := converted t1 @ [(image_path, webp_path)],
                                     image_mappings :=
                                       AList.update (name image_path) (name webp_path)
                                         (image_mappings t1)\<rparr>)))
                      else (fs1, Inr (t1\<lparr>failed := failed t1 @ [image_path]\<rparr>)))))"

fun convert_images ::
    "world \<Rightarrow> args \<Rightarrow> path list \<Rightarrow> filesystem \<times> tally \<Rightarrow> filesystem \<times> (py_error + tally)" where
  "convert_images w a [] st = (fst st, Inr (snd st))"
| "convert_images w a (image_path # images) st =
     (case convert_one w a image_path st of
        (fs1, Inl e) \<Rightarrow> (fs1, Inl e)
      | (fs1, Inr t1) \<Rightarrow> convert_images w a images (fs1, t1))"

subsection \<open>Regular expressions (\<^verbatim>\<open>re.subn\<close> with \<^verbatim>\<open>re.IGNORECASE\<close>)\<close>

text \<open>
  The three patterns of \<^verbatim>\<open>update_references_in_file\<close> are sequences of capture groups;
  each group is a sequence of items, and an item is one character (\<open>One\<close>), an optional
  character (\<open>Opt\<close>, greedy), or a repetition of one character (\<open>Star\<close> greedy,
  \<open>LazyStar\<close> lazy). A literal character matches case-insensitively. \<open>bt\<close> is the
  backtracking matcher: it tries the alternatives in the order Python's engine does and
  returns the text of each group with the unmatched rest of the input.
\<close>

datatype atom = Lit char | Quote | NotQuote | Space | NotRParen | NotRBracket

fun atom_ok :: "atom \<Rightarrow> char \<Rightarrow> bool" where
  "atom_ok (Lit x) c = (lower_char c = lower_char x)"
| "atom_ok Quote c = (c = CHR 0x22 \<or> c = CHR 0x27)"
| "atom_ok NotQuote c = (c \<noteq> CHR 0x22 \<and> c \<noteq> CHR 0x27)"
| "atom_ok Space c = ((of_char c :: nat) \<in> {9, 10, 11, 12, 13, 28, 29, 30, 31, 32, 133, 160})"
| "atom_ok NotRParen c = (c \<noteq> CHR 0x29)"
| "atom_ok NotRBracket c = (c \<noteq> CHR 0x5D)"

datatype item = One atom | Opt atom | Star atom | LazyStar atom

type_synonym regex = "item list list"

definition push :: "char \<Rightarrow> string list \<times> string \<Rightarrow> string list \<times> string" where
  "push c r = (case r of (caps, rest) \<Rightarrow> ((c # hd caps) # tl caps, rest))"

fun bt :: "item list \<Rightarrow> item list list \<Rightarrow> string \<Rightarrow> (string list \<times> string) option" where
  "bt [] [] s = Some ([[]], s)"
| "bt [] (g # gs) s =
     (case bt g gs s of None \<Rightarrow> None | Some (caps, rest) \<Rightarrow> Some ([] # caps, rest))"
| "bt (One a # is) gs [] = None"
| "bt (One a # is) gs (c # cs) =
     (if atom_ok a c then map_option (push c) (bt is gs cs) else None)"
| "bt (Opt a # is) gs [] = bt is gs []"
| "bt (Opt a # is) gs (c # cs) =
     (if atom_ok a c then
        (case bt is gs cs of Some r \<Rightarrow> Some (push c r) | None \<Rightarrow> bt is gs (c # cs))
      else bt is gs (c # cs))"
| "bt (Star a # is) gs [] = bt is gs []"
| "bt (Star a # is) gs (c # cs) =
     (if atom_ok a c then
        (case bt (Star a # is) gs cs of Some r \<Rightarrow> Some (push c r) | None \<Rightarrow> bt is gs (c # cs))
      else bt is gs (c # cs))"
| "bt (LazyStar a # is) gs [] = bt is gs []"
| "bt (LazyStar a # is) gs (c # cs) =
     (case bt is gs (c # cs) of
        Some r \<Rightarrow> Some r
      | None \<Rightarrow> if atom_ok a c then map_option (push c) (bt (LazyStar a # is) gs cs) else None)"

definition match :: "regex \<Rightarrow> string \<Rightarrow> (string list \<times> string) option" where
  "match pat s = (case pat of [] \<Rightarrow> Some ([], s) | g # gs \<Rightarrow> bt g gs s)"

text \<open>
  The replacement template, parsed as \<^verbatim>\<open>re._parser.parse_template\<close> parses it
  (CPython 3.12 and later, where a numeric group name is a string of ASCII digits): a
  backslash followed by digits is a group reference or an octal escape, a backslash
  followed by \<open>g\<close> and a number in angle brackets is a group reference, the escapes of
  \<open>ESCAPES\<close> are single characters, and a backslash before another ASCII letter is an
  error. The patterns have no named groups, so a group name that is not a number is an
  error as well.
\<close>

datatype tpart = TLit char | TGroup nat

definition digit :: "char \<Rightarrow> bool" where
  "digit c = (48 \<le> (of_char c :: nat) \<and> (of_char c :: nat) \<le> 57)"

definition octdigit :: "char \<Rightarrow> bool" where
  "octdigit c = (48 \<le> (of_char c :: nat) \<and> (of_char c :: nat) \<le> 55)"

definition ascii_letter :: "char \<Rightarrow> bool" where
  "ascii_letter c = (let n = (of_char c :: nat) in (65 \<le> n \<and> n \<le> 90) \<or> (97 \<le> n \<and> n \<le> 122))"

definition digit_val :: "char \<Rightarrow> nat" where
  "digit_val c = of_char c - 48"

definition int_of_digits :: "string \<Rightarrow> nat" where
  "int_of_digits ds = foldl (\<lambda>n d. 10 * n + digit_val d) 0 ds"

definition ESCAPES :: "char \<rightharpoonup> char" where
  "ESCAPES = [CHR ''a'' \<mapsto> CHR 0x07, CHR ''b'' \<mapsto> CHR 0x08, CHR ''f'' \<mapsto> CHR 0x0C,
              CHR ''n'' \<mapsto> CHR 0x0A, CHR ''r'' \<mapsto> CHR 0x0D, CHR ''t'' \<mapsto> CHR 0x09,
              CHR ''v'' \<mapsto> CHR 0x0B, bslash \<mapsto> bslash]"

definition lit :: "char \<Rightarrow> py_error + tpart list \<Rightarrow> py_error + tpart list" where
  "lit c r = (case r of Inl e \<Rightarrow> Inl e | Inr ps \<Rightarrow> Inr (TLit c # ps))"

definition grp :: "nat \<Rightarrow> nat \<Rightarrow> py_error + tpart list \<Rightarrow> py_error + tpart list" where
  "grp groups i r =
     (if i > groups then Inl TemplateError
      else (case r of Inl e \<Rightarrow> Inl e | Inr ps \<Rightarrow> Inr (TGroup i # ps)))"

fun parse_template :: "nat \<Rightarrow> string \<Rightarrow> py_error + tpart list"
  and parse_name :: "nat \<Rightarrow> string \<Rightarrow> string \<Rightarrow> py_error + tpart list" where
  "parse_template groups [] = Inr []"
| "parse_template groups [c] = (if c = bslash then Inl TemplateError else Inr [TLit c])"
| "parse_template groups (c # e # r) =
     (if c \<noteq> bslash then lit c (parse_template groups (e # r))
      else if e = CHR ''g'' then
        (case r of
           [] \<Rightarrow> Inl TemplateError
         | x # r1 \<Rightarrow> if x = CHR ''<'' then parse_name groups [] r1 else Inl TemplateError)
      else if e = CHR ''0'' then
        (case r of
           [] \<Rightarrow> lit (CHR 0x00) (parse_template groups r)
         | d1 # r1 \<Rightarrow>
             if octdigit d1 then
               (case r1 of
                  [] \<Rightarrow> lit (char_of (digit_val d1)) (parse_template groups r1)
                | d2 # r2 \<Rightarrow>
                    if octdigit d2
                    then lit (char_of (8 * digit_val d1 + digit_val d2)) (parse_template groups r2)
                    else lit (char_of (digit_val d1)) (parse_template groups r1))
             else lit (CHR 0x00) (parse_template groups r))
      else if digit e then
        (case r of
           [] \<Rightarrow> grp groups (digit_val e) (parse_template groups r)
         | d1 # r1 \<Rightarrow>
             if digit d1 then
               (case r1 of
                  [] \<Rightarrow> grp groups (10 * digit_val e + digit_val d1) (parse_template groups r1)
                | d2 # r2 \<Rightarrow>
                    if octdigit e \<and> octdigit d1 \<and> octdigit d2 then
                      (if 64 * digit_val e + 8 * digit_val d1 + digit_val d2 > 255
                       then Inl TemplateError
                       else lit (char_of (64 * digit_val e + 8 * digit_val d1 + digit_val d2))
                              (parse_template groups r2))
                    else grp groups (10 * digit_val e + digit_val d1) (parse_template groups r1))
             else grp groups (digit_val e) (parse_template groups r))
      else
        (case ESCAPES e of
           Some ch \<Rightarrow> lit ch (parse_template groups r)
         | None \<Rightarrow>
             if ascii_letter e then Inl TemplateError
             else lit bslash (lit e (parse_template groups r))))"
| "parse_name groups acc [] = Inl TemplateError"
| "parse_name groups acc (x # r) =
     (if x = CHR ''>'' then
        (if acc \<noteq> [] \<and> list_all digit acc
         then grp groups (int_of_digits acc) (parse_template groups r)
         else Inl TemplateError)
      else parse_name groups (acc @ [x]) r)"

fun expand :: "tpart list \<Rightarrow> string \<Rightarrow> string list \<Rightarrow> string" where
  "expand [] whole caps = []"
| "expand (TLit c # ps) whole caps = c # expand ps whole caps"
| "expand (TGroup i # ps) whole caps =
     (if i = 0 then whole else caps ! (i - 1)) @ expand ps whole caps"

text \<open>
  \<^verbatim>\<open>re.subn\<close>: the leftmost match from each position, replaced by the expanded
  template, then the scan goes on after the match. The patterns of the source consume
  at least two characters (lemma \<open>patterns_consume\<close>), so the scan never meets an
  empty match and the second branch below is never taken.
\<close>

fun subn_scan :: "regex \<Rightarrow> tpart list \<Rightarrow> string \<Rightarrow> string \<times> nat" where
  "subn_scan pat tpl s =
     (case match pat s of
        Some (caps, rest) \<Rightarrow>
          if length rest < length s then
            (case subn_scan pat tpl rest of
               (out, n) \<Rightarrow> (expand tpl (take (length s - length rest) s) caps @ out, Suc n))
          else (case s of
                  [] \<Rightarrow> ([], 0)
                | c # cs \<Rightarrow> (case subn_scan pat tpl cs of (out, n) \<Rightarrow> (c # out, n)))
      | None \<Rightarrow>
          (case s of
             [] \<Rightarrow> ([], 0)
           | c # cs \<Rightarrow> (case subn_scan pat tpl cs of (out, n) \<Rightarrow> (c # out, n))))"

declare subn_scan.simps [simp del]

definition subn :: "regex \<Rightarrow> string \<Rightarrow> string \<Rightarrow> py_error + (string \<times> nat)" where
  "subn pat repl s =
     (case parse_template (length pat) repl of
        Inl e \<Rightarrow> Inl e
      | Inr tpl \<Rightarrow> Inr (subn_scan pat tpl s))"

definition lits :: "string \<Rightarrow> item list" where
  "lits s = map (\<lambda>c. One (Lit c)) s"

text \<open>Line 182: \<^verbatim>\<open>(["\'])([^"\']*?)({old_escaped})(["\'])\<close> and
  \<^verbatim>\<open>\1\2{new_name}\4\<close>.\<close>

definition pattern_quoted :: "string \<Rightarrow> regex" where
  "pattern_quoted old_name = [[One Quote], [LazyStar NotQuote], lits old_name, [One Quote]]"

definition replacement_quoted :: "string \<Rightarrow> string" where
  "replacement_quoted new_name = [bslash, CHR ''1'', bslash, CHR ''2''] @ new_name @ [bslash, CHR ''4'']"

text \<open>Line 184: \<^verbatim>\<open>(url\s*\(\s*)(["\']?)([^)]*?)({old_escaped})(["\']?\s*\))\<close> and
  \<^verbatim>\<open>\1\2\3{new_name}\5\<close>.\<close>

definition pattern_url :: "string \<Rightarrow> regex" where
  "pattern_url old_name =
     [lits ''url'' @ [Star Space, One (Lit (CHR 0x28)), Star Space],
      [Opt Quote],
      [LazyStar NotRParen],
      lits old_name,
      [Opt Quote, Star Space, One (Lit (CHR 0x29))]]"

definition replacement_url :: "string \<Rightarrow> string" where
  "replacement_url new_name =
     [bslash, CHR ''1'', bslash, CHR ''2'', bslash, CHR ''3''] @ new_name @ [bslash, CHR ''5'']"

text \<open>Line 186: \<^verbatim>\<open>(\!\[[^\]]*\]\s*\()([^)]*?)({old_escaped})(\))\<close> and
  \<^verbatim>\<open>\1\2{new_name}\4\<close>.\<close>

definition pattern_markdown :: "string \<Rightarrow> regex" where
  "pattern_markdown old_name =
     [[One (Lit (CHR 0x21)), One (Lit (CHR 0x5B)), Star NotRBracket, One (Lit (CHR 0x5D)),
       Star Space, One (Lit (CHR 0x28))],
      [LazyStar NotRParen],
      lits old_name,
      [One (Lit (CHR 0x29))]]"

definition replacement_markdown :: "string \<Rightarrow> string" where
  "replacement_markdown new_name = [bslash, CHR ''1'', bslash, CHR ''2''] @ new_name @ [bslash, CHR ''4'']"


subsection \<open>\<^verbatim>\<open>update_references_in_file\<close>\<close>

text \<open>Lines 180 to 187: the three patterns with their replacement templates.
  \<^verbatim>\<open>re.escape\<close> makes the old name a literal.\<close>

definition patterns :: "string \<Rightarrow> string \<Rightarrow> (regex \<times> string) list" where
  "patterns old_name new_name =
     [(pattern_quoted old_name, replacement_quoted new_name),
      (pattern_url old_name, replacement_url new_name),
      (pattern_markdown old_name, replacement_markdown new_name)]"

text \<open>Lines 189 to 193.\<close>

fun apply_patterns :: "(regex \<times> string) list \<Rightarrow> string \<times> nat \<Rightarrow> py_error + (string \<times> nat)" where
  "apply_patterns [] acc = Inr acc"
| "apply_patterns ((pattern, replacement) # ps) acc =
     (case acc of (content, replacements) \<Rightarrow>
       (case subn pattern replacement content of
          Inl e \<Rightarrow> Inl e
        | Inr (new_content, count) \<Rightarrow>
            if count > 0 then apply_patterns ps (new_content, replacements + count)
            else apply_patterns ps (content, replacements)))"

text \<open>Lines 173 to 193: the loop over \<^verbatim>\<open>image_mappings.items()\<close>.\<close>

fun rewrite_mappings :: "(string \<times> string) list \<Rightarrow> string \<times> nat \<Rightarrow> py_error + (string \<times> nat)" where
  "rewrite_mappings [] acc = Inr acc"
| "rewrite_mappings ((old_name, new_name) # rest) acc =
     (case apply_patterns (patterns old_name new_name) acc of
        Inl e \<Rightarrow> Inl e
      | Inr acc' \<Rightarrow> rewrite_mappings rest acc')"

text \<open>
  The whole function. Every exception is caught on line 206 and the function returns 0.
  The parameter \<^verbatim>\<open>root_dir\<close> is not used by the source and \<^verbatim>\<open>verbose\<close> only prints.
\<close>

definition update_references_in_file ::
    "world \<Rightarrow> filesystem \<Rightarrow> path \<Rightarrow> (string \<times> string) list \<Rightarrow> bool \<Rightarrow> filesystem \<times> nat" where
  "update_references_in_file w fs file_path mappings dry =
     (case read_text w fs file_path of
        Inl e \<Rightarrow> (fs, 0)
      | Inr original_content \<Rightarrow>
          (case rewrite_mappings mappings (original_content, 0) of
             Inl e \<Rightarrow> (fs, 0)
           | Inr (content, replacements) \<Rightarrow>
               if content \<noteq> original_content then
                 (if \<not> dry then
                    (case write_text w fs file_path content of
                       Inl e \<Rightarrow> (fs, 0)
                     | Inr fs1 \<Rightarrow> (fs1, replacements))
                  else (fs, replacements))
               else (fs, replacements)))"

subsection \<open>\<^verbatim>\<open>main\<close>\<close>

text \<open>Lines 330 to 340: the loop over the code files.\<close>

fun update_all ::
    "world \<Rightarrow> args \<Rightarrow> (string \<times> string) list \<Rightarrow> path list \<Rightarrow> filesystem \<times> nat \<times> nat
      \<Rightarrow> filesystem \<times> nat \<times> nat" where
  "update_all w a mappings [] st = st"
| "update_all w a mappings (code_file # code_files) st =
     (case st of (fs, files_updated, total_replacements) \<Rightarrow>
       (case update_references_in_file w fs code_file mappings (dry_run a) of
          (fs1, replacements) \<Rightarrow>
            if replacements > 0
            then update_all w a mappings code_files
                   (fs1, files_updated + 1, total_replacements + replacements)
            else update_all w a mappings code_files (fs1, files_updated, total_replacements)))"

text \<open>Lines 348 to 356: the loop that deletes the originals.\<close>

fun delete_loop :: "world \<Rightarrow> (path \<times> path) list \<Rightarrow> filesystem \<times> nat \<Rightarrow> filesystem \<times> nat" where
  "delete_loop w [] st = st"
| "delete_loop w ((original_path, webp_path) # rest) st =
     (case st of (fs, deleted) \<Rightarrow>
       if path_exists w fs webp_path then
         (case unlink w fs original_path of
            Inl e \<Rightarrow> delete_loop w rest (fs, deleted)
          | Inr fs1 \<Rightarrow> delete_loop w rest (fs1, deleted + 1))
       else delete_loop w rest (fs, deleted))"

text \<open>Lines 247 to 250.\<close>

definition root_directory :: "world \<Rightarrow> args \<Rightarrow> path" where
  "root_directory w a =
     (case arg_path a of
        None \<Rightarrow> get_script_directory w
      | Some s \<Rightarrow> if s \<noteq> [] then resolve w s else get_script_directory w)"

record report =
  result :: tally
  files_updated :: nat
  total_replacements :: nat
  deleted :: nat

datatype outcome =
    Exit int             \<comment> \<open>\<^verbatim>\<open>sys.exit\<close>\<close>
  | Raised py_error      \<comment> \<open>an exception that leaves \<^verbatim>\<open>main\<close>\<close>
  | NoImages             \<comment> \<open>the early return on line 268\<close>
  | Done report

definition main :: "world \<Rightarrow> args \<Rightarrow> filesystem \<Rightarrow> filesystem \<times> outcome" where
  "main w a fs =
     (if \<not> (1 \<le> quality a \<and> quality a \<le> 100) then (fs, Exit 1)
      else
        let root_dir = root_directory w a in
        if \<not> path_exists w fs root_dir then (fs, Exit 1)
        else
          let images = find_images w fs root_dir in
          if images = [] then (fs, NoImages)
          else
            (case convert_images w a images (fs, empty_tally) of
               (fs1, Inl e) \<Rightarrow> (fs1, Raised e)
             | (fs1, Inr t) \<Rightarrow>
                 (case update_all w a (image_mappings t) (find_code_files w fs1 root_dir) (fs1, 0, 0) of
                    (fs2, updated, replaced) \<Rightarrow>
                      (case (if delete_originals a \<and> \<not> dry_run a \<and> converted t \<noteq> []
                             then delete_loop w (converted t) (fs2, 0) else (fs2, 0)) of
                         (fs3, removed) \<Rightarrow>
                           (fs3, Done \<lparr>result = t, files_updated = updated,
                                       total_replacements = replaced, deleted = removed\<rparr>)))))"

subsection \<open>A small site, for the examples\<close>

text \<open>
  A world in which every file may be read, written and removed, the codec fails on the
  content \<open>''corrupt''\<close> and succeeds on every other, and the script lies in
  \<^verbatim>\<open>/opt/tools\<close> while the program is invoked from \<^verbatim>\<open>/site\<close>.
\<close>

definition site_paths :: "path list" where
  "site_paths =
     [[''/'', ''site'', ''index.html''],
      [''/'', ''site'', ''a''],
      [''/'', ''site'', ''a'', ''x.jpg''],
      [''/'', ''site'', ''a'', ''x.jpg.backup''],
      [''/'', ''site'', ''a'', ''x.webp''],
      [''/'', ''site'', ''b''],
      [''/'', ''site'', ''b'', ''x.jpg''],
      [''/'', ''site'', ''b'', ''x.webp'']]"

definition site_world :: world where
  "site_world =
     \<lparr>codec = (\<lambda>data q. if data = ''corrupt'' then None else Some (''RIFF'' @ data)),
      readable = (\<lambda>p. True),
      writable = (\<lambda>p. True),
      removable = (\<lambda>p. True),
      dir_exists = (\<lambda>p. p \<in> {[''/'', ''site''], [''/'', ''site'', ''a''], [''/'', ''site'', ''b''],
                              [''/'', ''opt'', ''tools'']}),
      rglob = (\<lambda>fl root. filter (\<lambda>p. take (length root) p = root
                                       \<and> (fl p \<noteq> None \<or> p \<in> {[''/'', ''site'', ''a''], [''/'', ''site'', ''b'']}))
                               site_paths),
      resolve = (\<lambda>s. if s = ''/opt/tools/image_optimizer.py''
                      then [''/'', ''opt'', ''tools'', ''image_optimizer.py'']
                      else [''/'', ''site'']),
      script_file = ''/opt/tools/image_optimizer.py'',
      cwd = [''/'', ''site'']\<rparr>"

definition run_args :: "bool \<Rightarrow> bool \<Rightarrow> bool \<Rightarrow> args" where
  "run_args dry bkp del =
     \<lparr>quality = 85, dry_run = dry, backup = bkp, verbose = False, delete_originals = del,
      arg_path = Some ''/site''\<rparr>"

definition site_files :: "string \<Rightarrow> string \<Rightarrow> filesystem" where
  "site_files xa xb =
     \<lparr>files = [[''/'', ''site'', ''index.html''] \<mapsto> ''<img src=\"a/x.jpg\">'',
               [''/'', ''site'', ''a'', ''x.jpg''] \<mapsto> xa,
               [''/'', ''site'', ''b'', ''x.jpg''] \<mapsto> xb],
      effects = []\<rparr>"

definition backed_up_site :: filesystem where
  "backed_up_site =
     \<lparr>files = [[''/'', ''site'', ''a'', ''x.jpg''] \<mapsto> ''JPEG'',
               [''/'', ''site'', ''a'', ''x.jpg.backup''] \<mapsto> ''first backup''],
      effects = []\<rparr>"

definition broken_photo_site :: filesystem where
  "broken_photo_site =
     \<lparr>files = [[''/'', ''site'', ''index.html''] \<mapsto> ''<img src=x.jpg>'',
               [''/'', ''site'', ''a'', ''x.jpg''] \<mapsto> ''corrupt''],
      effects = []\<rparr>"

definition images_only_site :: filesystem where
  "images_only_site =
     \<lparr>files = [[''/'', ''site'', ''a'', ''x.jpg''] \<mapsto> ''JPEGa'',
               [''/'', ''site'', ''b'', ''x.jpg''] \<mapsto> ''corrupt''],
      effects = []\<rparr>"

subsection \<open>What a rewrite rule may change\<close>

text \<open>
  The words of the properties of the rewrite rules. \<open>accepts\<close> is the language of a
  sequence of items. A text is cut into segments: a character that is kept, or a token
  that is replaced; \<open>source\<close> is the text before the replacement, \<open>target\<close> the
  text after it, \<open>tokens\<close> the replaced tokens. A new name is plain when the template
  parser reads it as literal text after a group reference: it has no backslash and does
  not begin with a digit.
\<close>

fun accepts :: "item list \<Rightarrow> string \<Rightarrow> bool" where
  "accepts [] s = (s = [])"
| "accepts (One a # is) [] = False"
| "accepts (One a # is) (c # cs) = (atom_ok a c \<and> accepts is cs)"
| "accepts (Opt a # is) [] = accepts is []"
| "accepts (Opt a # is) (c # cs) = (accepts is (c # cs) \<or> (atom_ok a c \<and> accepts is cs))"
| "accepts (Star a # is) [] = accepts is []"
| "accepts (Star a # is) (c # cs) =
     (accepts is (c # cs) \<or> (atom_ok a c \<and> accepts (Star a # is) cs))"
| "accepts (LazyStar a # is) [] = accepts is []"
| "accepts (LazyStar a # is) (c # cs) =
     (accepts is (c # cs) \<or> (atom_ok a c \<and> accepts (LazyStar a # is) cs))"

datatype segment = Keep char | Subst string

fun source :: "segment list \<Rightarrow> string" where
  "source [] = []"
| "source (Keep c # segs) = c # source segs"
| "source (Subst tok # segs) = tok @ source segs"

fun target :: "string \<Rightarrow> segment list \<Rightarrow> string" where
  "target new [] = []"
| "target new (Keep c # segs) = c # target new segs"
| "target new (Subst tok # segs) = new @ target new segs"

fun tokens :: "segment list \<Rightarrow> string list" where
  "tokens [] = []"
| "tokens (Keep c # segs) = tokens segs"
| "tokens (Subst tok # segs) = tok # tokens segs"

definition plain_name :: "string \<Rightarrow> bool" where
  "plain_name new_name = (bslash \<notin> set new_name \<and> (case new_name of [] \<Rightarrow> True | c # cs \<Rightarrow> \<not> digit c))"

definition sound_caps :: "item list \<Rightarrow> item list list \<Rightarrow> string \<Rightarrow> string list \<times> string \<Rightarrow> bool" where
  "sound_caps is gs s r \<longleftrightarrow>
     (case r of (caps, rest) \<Rightarrow>
        caps \<noteq> [] \<and> length (tl caps) = length gs \<and> s = concat caps @ rest
        \<and> accepts is (hd caps) \<and> list_all2 accepts gs (tl caps))"

subsection \<open>The invariant of the conversion loop\<close>

text \<open>
  The keys of the mapping are distinct, and every converted pair \<open>(p, d)\<close> has
  \<open>d\<close> the WebP sibling of \<open>p\<close> and is recorded in the mapping under the name of \<open>p\<close>.
\<close>

definition mapping_inv :: "tally \<Rightarrow> bool" where
  "mapping_inv t \<longleftrightarrow>
     distinct (map fst (image_mappings t)) \<and>
     (\<forall>(p, d) \<in> set (converted t).
        with_suffix p ''.webp'' = Inr d \<and> map_of (image_mappings t) (name p) = Some (name d))"

section \<open>Properties\<close>

subsection \<open>Paths\<close>

lemmas eval_simps = lower_def lower_char_def char_of_def bit_Suc_0_iff suffix_def suffix_of_def
  stem_def stem_of_def name_def parent_def with_suffix_def IMAGE_EXTENSIONS_def

lemma rfind_append_last: "c \<notin> set ys \<Longrightarrow> rfind c (xs @ c # ys) = Some (length xs)"
proof (induction xs)
  case Nil
  have "rfind c ys = None" using Nil by (induction ys) (auto split: option.splits)
  then show ?case by simp
next
  case (Cons x xs) then show ?case by simp
qed

lemma rfind_None: "rfind c xs = None \<longleftrightarrow> c \<notin> set xs"
  by (induction xs) (auto split: option.splits)

lemma rfind_Some:
  "rfind c xs = Some i \<Longrightarrow> i < length xs \<and> xs ! i = c \<and> c \<notin> set (drop (Suc i) xs)"
proof (induction xs arbitrary: i)
  case Nil then show ?case by simp
next
  case (Cons x xs)
  show ?case
  proof (cases "rfind c xs")
    case None
    with Cons.prems have "x = c" "i = 0" by (auto split: if_splits)
    with None show ?thesis by (simp add: rfind_None)
  next
    case (Some j)
    with Cons.prems have "i = Suc j" by simp
    with Cons.IH[OF Some] show ?thesis by simp
  qed
qed

lemma suffix_of_split:
  assumes "suffix_of nm \<noteq> []"
  shows "nm = stem_of nm @ suffix_of nm" "stem_of nm \<noteq> []"
    "length (suffix_of nm) \<ge> 2" "hd (suffix_of nm) = CHR ''.''"
  using assms
  by (auto simp: suffix_of_def stem_of_def hd_drop_conv_nth
           split: option.splits if_splits dest!: rfind_Some)

lemma stem_suffix_append:
  assumes "st \<noteq> []" "CHR ''.'' \<notin> set e" "e \<noteq> []"
  shows "stem_of (st @ CHR ''.'' # e) = st" "suffix_of (st @ CHR ''.'' # e) = CHR ''.'' # e"
  using assms by (auto simp: stem_of_def suffix_of_def rfind_append_last)

lemma with_suffix_webp:
  assumes "suffix p \<noteq> []"
  shows "with_suffix p ''.webp'' = Inr (butlast p @ [stem p @ ''.webp''])"
proof -
  have n: "name p \<noteq> []" using assms by (auto simp: suffix_def suffix_of_def)
  have "name p = stem p @ suffix p"
    using suffix_of_split(1)[of "name p"] assms by (simp add: suffix_def stem_def)
  then have "take (length (name p) - length (suffix p)) (name p) = stem p"
    by (metis append_eq_conv_conj length_append add_diff_cancel_right')
  then show ?thesis using assms n by (simp add: with_suffix_def)
qed

lemma name_snoc: "nm \<noteq> [] \<Longrightarrow> nm \<noteq> ''/'' \<Longrightarrow> name (d @ [nm]) = nm"
  by (auto simp: name_def)

lemma path_split: "name p \<noteq> [] \<Longrightarrow> p = butlast p @ [name p]"
  by (auto simp: name_def split: if_splits)

lemma parent_snoc: "nm \<noteq> ''/'' \<Longrightarrow> parent (d @ [nm]) = d"
  by (auto simp: parent_def)

lemma image_suffix_nonempty: "lower (suffix p) \<in> IMAGE_EXTENSIONS \<Longrightarrow> suffix p \<noteq> []"
  by (auto simp: IMAGE_EXTENSIONS_def lower_def)

lemma webp_path_props:
  assumes "suffix p \<noteq> []"
  shows "parent (butlast p @ [stem p @ ''.webp'']) = parent p"
    "name (butlast p @ [stem p @ ''.webp'']) = stem p @ ''.webp''"
    "stem (butlast p @ [stem p @ ''.webp'']) = stem p"
    "suffix (butlast p @ [stem p @ ''.webp'']) = ''.webp''"
proof -
  have n: "name p \<noteq> []" using assms by (auto simp: suffix_def suffix_of_def)
  have st: "stem p \<noteq> []"
    using suffix_of_split(2)[of "name p"] assms by (simp add: suffix_def stem_def)
  have ne: "stem p @ ''.webp'' \<noteq> ''/''" by (cases "stem p") auto
  have "p \<noteq> [''/'']" using n by (auto simp: name_def)
  then show "parent (butlast p @ [stem p @ ''.webp'']) = parent p"
    using ne by (simp add: parent_snoc) (simp add: parent_def)
  show nm: "name (butlast p @ [stem p @ ''.webp'']) = stem p @ ''.webp''"
    using ne by (simp add: name_snoc)
  show "stem (butlast p @ [stem p @ ''.webp'']) = stem p"
    unfolding stem_def[of "butlast p @ _"] nm
    using stem_suffix_append(1)[OF st, of "''webp''"] by simp
  show "suffix (butlast p @ [stem p @ ''.webp'']) = ''.webp''"
    unfolding suffix_def[of "butlast p @ _"] nm
    using stem_suffix_append(2)[OF st, of "''webp''"] by simp
qed

lemma with_suffix_discovered:
  assumes "lower (suffix p) \<in> IMAGE_EXTENSIONS"
  shows "with_suffix p ''.webp'' = Inr (butlast p @ [stem p @ ''.webp''])"
  using assms by (simp add: with_suffix_webp image_suffix_nonempty)

subsection \<open>The destination of a conversion\<close>

text \<open>
  Claim C5. For an image that \<^verbatim>\<open>find_images\<close> accepts (its lower-cased suffix is one of
  the image extensions), \<^verbatim>\<open>with_suffix('.webp')\<close> succeeds and yields a path in the same
  directory, with the same stem and the suffix \<^verbatim>\<open>.webp\<close>. That path is the one
  \<^verbatim>\<open>convert_to_webp\<close> returns, on success and on failure, and the one the dry-run branch
  of the loop records.
\<close>

theorem transcode_destination:
  assumes "lower (suffix image_path) \<in> IMAGE_EXTENSIONS"
  shows "\<exists>dst. with_suffix image_path ''.webp'' = Inr dst
           \<and> parent dst = parent image_path
           \<and> stem dst = stem image_path
           \<and> suffix dst = ''.webp''
           \<and> (\<forall>w fs q b. \<exists>fs' ok. convert_to_webp w fs image_path q b = Inr (fs', dst, ok))
           \<and> (\<forall>w a fs t. dry_run a \<longrightarrow> is_file fs image_path \<longrightarrow>
                 (\<exists>t'. convert_one w a image_path (fs, t) = (fs, Inr t')
                       \<and> converted t' = converted t @ [(image_path, dst)]))"
proof -
  let ?dst = "butlast image_path @ [stem image_path @ ''.webp'']"
  have ne: "suffix image_path \<noteq> []" using assms by (rule image_suffix_nonempty)
  have ws: "with_suffix image_path ''.webp'' = Inr ?dst"
    using assms by (rule with_suffix_discovered)
  have conv: "\<exists>fs' ok. convert_to_webp w fs image_path q b = Inr (fs', ?dst, ok)" for w fs q b
    by (auto simp: convert_to_webp_def ws split: sum.splits)
  have dry: "\<exists>t'. convert_one w a image_path (fs, t) = (fs, Inr t')
                       \<and> converted t' = converted t @ [(image_path, ?dst)]"
    if "dry_run a" "is_file fs image_path" for w a fs t
    using that by (auto simp: convert_one_def st_size_def is_file_def ws Let_def)
  show ?thesis
    using ws webp_path_props[OF ne] conv dry by blast
qed

theorem transcode_destination_witness:
  "lower (suffix [''/'', ''site'', ''img'', ''Photo.JPG'']) \<in> IMAGE_EXTENSIONS
   \<and> with_suffix [''/'', ''site'', ''img'', ''Photo.JPG''] ''.webp''
       = Inr [''/'', ''site'', ''img'', ''Photo.webp'']
   \<and> (\<exists>dst. with_suffix [''/'', ''site'', ''img'', ''Photo.JPG''] ''.webp'' = Inr dst
         \<and> parent dst = [''/'', ''site'', ''img'']
         \<and> stem dst = ''Photo''
         \<and> suffix dst = ''.webp'')"
proof -
  have h: "lower (suffix [''/'', ''site'', ''img'', ''Photo.JPG'']) \<in> IMAGE_EXTENSIONS"
    by (simp add: eval_simps)
  have e: "with_suffix [''/'', ''site'', ''img'', ''Photo.JPG''] ''.webp''
       = Inr [''/'', ''site'', ''img'', ''Photo.webp'']"
    by (simp add: eval_simps)
  have p: "parent [''/'', ''site'', ''img'', ''Photo.JPG''] = [''/'', ''site'', ''img'']"
    "stem [''/'', ''site'', ''img'', ''Photo.JPG''] = ''Photo''"
    by (simp_all add: eval_simps)
  from transcode_destination[OF h] h e p show ?thesis by auto
qed

lemmas site_simps = site_world_def site_paths_def run_args_def site_files_def

subsection \<open>Backups\<close>

lemma webp_ne_backup:
  assumes "with_suffix p ''.webp'' = Inr a" "with_suffix p (s @ ''.backup'') = Inr b"
  shows "a \<noteq> b"
proof
  assume "a = b"
  with assms obtain x y where "x @ ''.webp'' = y @ ''.backup''"
    by (auto simp: with_suffix_def split: if_splits)
  then have "rev (x @ ''.webp'') = rev (y @ ''.backup'')" by simp
  then show False by simp
qed

text \<open>
  Claim C6. With the backup enabled, a call of \<^verbatim>\<open>convert_to_webp\<close> that finds the backup
  sibling present copies nothing: the sibling keeps its content and the only effect the
  call can add is the saving of the WebP file. And whatever the first call found, a second
  call on the state the first one left copies nothing and leaves the sibling as it was.
\<close>

theorem backup_idempotent:
  assumes bp: "with_suffix image_path (suffix image_path @ ''.backup'') = Inr backup_path"
  shows "\<exists>fs1 dst ok1. convert_to_webp w fs image_path q True = Inr (fs1, dst, ok1)
           \<and> (path_exists w fs backup_path \<longrightarrow>
                 files fs1 backup_path = files fs backup_path
               \<and> (effects fs1 = effects fs \<or> effects fs1 = effects fs @ [Saved dst]))
           \<and> (\<exists>fs2 ok2. convert_to_webp w fs1 image_path q True = Inr (fs2, dst, ok2)
                 \<and> files fs2 backup_path = files fs1 backup_path
                 \<and> (effects fs2 = effects fs1 \<or> effects fs2 = effects fs1 @ [Saved dst]))"
proof -
  have "name image_path \<noteq> []" using bp by (auto simp: with_suffix_def split: if_splits)
  then obtain dst where ws: "with_suffix image_path ''.webp'' = Inr dst"
    by (auto simp: with_suffix_def)
  have ne: "dst \<noteq> backup_path" using webp_ne_backup[OF ws bp] .
  have step: "\<exists>fs' ok. convert_to_webp w fs0 image_path q True = Inr (fs', dst, ok)
           \<and> files fs' backup_path = files fs0 backup_path
           \<and> (effects fs' = effects fs0 \<or> effects fs' = effects fs0 @ [Saved dst])"
    if "path_exists w fs0 backup_path" for fs0
    using that ne
    by (auto simp: convert_to_webp_def ws make_backup_def bp open_and_save_def
             split: sum.splits option.splits if_splits)
  have "\<exists>fs1 ok1. convert_to_webp w fs image_path q True = Inr (fs1, dst, ok1)"
    by (auto simp: convert_to_webp_def ws split: sum.splits)
  then obtain fs1 ok1 where c1: "convert_to_webp w fs image_path q True = Inr (fs1, dst, ok1)"
    by blast
  have first: "files fs1 backup_path = files fs backup_path
               \<and> (effects fs1 = effects fs \<or> effects fs1 = effects fs @ [Saved dst])"
    if "path_exists w fs backup_path"
    using step[OF that] c1 by auto
  have second: "\<exists>fs2 ok2. convert_to_webp w fs1 image_path q True = Inr (fs2, dst, ok2)
                 \<and> files fs2 backup_path = files fs1 backup_path
                 \<and> (effects fs2 = effects fs1 \<or> effects fs2 = effects fs1 @ [Saved dst])"
  proof (cases "path_exists w fs1 backup_path")
    case True
    then show ?thesis by (rule step)
  next
    case False
    have "make_backup w fs image_path = Inl OSError"
    proof (cases "make_backup w fs image_path")
      case (Inl e)
      then show ?thesis
        by (auto simp: make_backup_def copy2_def bp split: if_splits option.splits)
    next
      case (Inr fsb)
      then have "path_exists w fsb backup_path"
        by (auto simp: make_backup_def copy2_def bp path_exists_def is_file_def
                 split: if_splits option.splits)
      moreover have "files fs1 backup_path = files fsb backup_path"
        using c1 Inr ne
        by (auto simp: convert_to_webp_def ws open_and_save_def
                 split: sum.splits option.splits if_splits)
      ultimately have "path_exists w fs1 backup_path"
        by (simp add: path_exists_def is_file_def)
      with False show ?thesis by simp
    qed
    then have "convert_to_webp w fs image_path q True = Inr (fs, dst, False)"
      by (simp add: convert_to_webp_def ws)
    with c1 have "fs1 = fs" by simp
    with c1 show ?thesis by auto
  qed
  from c1 first second show ?thesis by blast
qed

theorem backup_idempotent_witness:
  "with_suffix [''/'', ''site'', ''a'', ''x.jpg''] (suffix [''/'', ''site'', ''a'', ''x.jpg''] @ ''.backup'')
     = Inr [''/'', ''site'', ''a'', ''x.jpg.backup'']
   \<and> path_exists site_world backed_up_site [''/'', ''site'', ''a'', ''x.jpg.backup'']
   \<and> (\<exists>fs1 dst ok1.
         convert_to_webp site_world backed_up_site [''/'', ''site'', ''a'', ''x.jpg''] 85 True
           = Inr (fs1, dst, ok1)
       \<and> files fs1 [''/'', ''site'', ''a'', ''x.jpg.backup''] = Some ''first backup'')"
proof -
  have h: "with_suffix [''/'', ''site'', ''a'', ''x.jpg''] (suffix [''/'', ''site'', ''a'', ''x.jpg''] @ ''.backup'')
     = Inr [''/'', ''site'', ''a'', ''x.jpg.backup'']"
    by (simp add: eval_simps)
  have e: "path_exists site_world backed_up_site [''/'', ''site'', ''a'', ''x.jpg.backup'']"
    by (simp add: path_exists_def is_file_def backed_up_site_def)
  have f: "files backed_up_site [''/'', ''site'', ''a'', ''x.jpg.backup''] = Some ''first backup''"
    by (simp add: backed_up_site_def)
  from backup_idempotent[OF h, of site_world backed_up_site 85] e f h show ?thesis
    by auto
qed


text \<open>
  Claim C10. When the backup sibling does not exist, the copy succeeds and the codec then
  fails, \<^verbatim>\<open>convert_to_webp\<close> reports failure and the backup it has just made is still
  in the file system it returns.
\<close>

theorem backup_survives_failed_conversion:
  assumes bp: "with_suffix image_path (suffix image_path @ ''.backup'') = Inr backup_path"
    and nex: "\<not> path_exists w fs backup_path"
    and src: "files fs image_path = Some data" "readable w image_path" "writable w backup_path"
    and bad: "codec w data q = None"
  shows "\<exists>fs' dst. convert_to_webp w fs image_path q True = Inr (fs', dst, False)
           \<and> \<not> is_file fs backup_path
           \<and> files fs' backup_path = Some data
           \<and> effects fs' = effects fs @ [Copied image_path backup_path]"
proof -
  have "name image_path \<noteq> []" using bp by (auto simp: with_suffix_def split: if_splits)
  then obtain dst where ws: "with_suffix image_path ''.webp'' = Inr dst"
    by (auto simp: with_suffix_def)
  let ?fs1 = "fs\<lparr>files := (files fs)(backup_path \<mapsto> data),
                 effects := effects fs @ [Copied image_path backup_path]\<rparr>"
  have mb: "make_backup w fs image_path = Inr ?fs1"
    using bp nex src by (simp add: make_backup_def copy2_def)
  have os: "open_and_save w ?fs1 image_path dst q = Inl ImageError"
    using src bad by (auto simp: open_and_save_def)
  have "convert_to_webp w fs image_path q True = Inr (?fs1, dst, False)"
    by (simp add: convert_to_webp_def ws mb os)
  moreover have "\<not> is_file fs backup_path" using nex by (simp add: path_exists_def)
  ultimately show ?thesis by (intro exI[of _ ?fs1] exI[of _ dst]) simp
qed

theorem backup_survives_failed_conversion_witness:
  "with_suffix [''/'', ''site'', ''a'', ''x.jpg''] (suffix [''/'', ''site'', ''a'', ''x.jpg''] @ ''.backup'')
     = Inr [''/'', ''site'', ''a'', ''x.jpg.backup'']
   \<and> \<not> path_exists site_world (site_files ''corrupt'' ''JPEG'') [''/'', ''site'', ''a'', ''x.jpg.backup'']
   \<and> codec site_world ''corrupt'' 85 = None
   \<and> (\<exists>fs' dst.
         convert_to_webp site_world (site_files ''corrupt'' ''JPEG'') [''/'', ''site'', ''a'', ''x.jpg''] 85 True
           = Inr (fs', dst, False)
       \<and> files fs' [''/'', ''site'', ''a'', ''x.jpg.backup''] = Some ''corrupt'')"
proof -
  have h: "with_suffix [''/'', ''site'', ''a'', ''x.jpg''] (suffix [''/'', ''site'', ''a'', ''x.jpg''] @ ''.backup'')
     = Inr [''/'', ''site'', ''a'', ''x.jpg.backup'']"
    by (simp add: eval_simps)
  have n: "\<not> path_exists site_world (site_files ''corrupt'' ''JPEG'') [''/'', ''site'', ''a'', ''x.jpg.backup'']"
    by (simp add: path_exists_def is_file_def site_simps)
  have f: "files (site_files ''corrupt'' ''JPEG'') [''/'', ''site'', ''a'', ''x.jpg''] = Some ''corrupt''"
    by (simp add: site_simps)
  have r: "readable site_world [''/'', ''site'', ''a'', ''x.jpg'']"
    "writable site_world [''/'', ''site'', ''a'', ''x.jpg.backup'']"
    by (simp_all add: site_simps)
  have c: "codec site_world ''corrupt'' 85 = None" by (simp add: site_simps)
  from backup_survives_failed_conversion[OF h n f r c] h n c show ?thesis by blast
qed

subsection \<open>Failures of a conversion\<close>

text \<open>
  Claim C8. For an image that \<^verbatim>\<open>find_images\<close> accepts, \<^verbatim>\<open>convert_to_webp\<close> never raises:
  it returns the destination path with a flag, and the flag is false exactly when the
  backup or the conversion raised. In a real run such an image is added to \<open>failed\<close>,
  the mapping and the list of converted pairs stay as they were, and the loop goes on with
  the remaining images.
\<close>

theorem transcode_failure_isolated:
  assumes img: "lower (suffix image_path) \<in> IMAGE_EXTENSIONS"
  shows "\<exists>fs' dst ok.
           with_suffix image_path ''.webp'' = Inr dst
         \<and> convert_to_webp w fs image_path (quality a) (backup a) = Inr (fs', dst, ok)
         \<and> (ok \<longleftrightarrow> (\<exists>fs1 fs2. (if backup a then make_backup w fs image_path else Inr fs) = Inr fs1
                             \<and> open_and_save w fs1 image_path dst (quality a) = Inr fs2))
         \<and> (\<not> ok \<longrightarrow> \<not> dry_run a \<longrightarrow> is_file fs image_path \<longrightarrow>
              (\<forall>t images. \<exists>n.
                 convert_images w a (image_path # images) (fs, t)
                 = convert_images w a images
                     (fs', t\<lparr>total_original_size := total_original_size t + n,
                             failed := failed t @ [image_path]\<rparr>)))"
proof -
  let ?dst = "butlast image_path @ [stem image_path @ ''.webp'']"
  have ws: "with_suffix image_path ''.webp'' = Inr ?dst"
    using img by (rule with_suffix_discovered)
  have "\<exists>fs' ok. convert_to_webp w fs image_path (quality a) (backup a) = Inr (fs', ?dst, ok)"
    by (auto simp: convert_to_webp_def ws split: sum.splits)
  then obtain fs' ok where
    cv: "convert_to_webp w fs image_path (quality a) (backup a) = Inr (fs', ?dst, ok)"
    by blast
  have okiff: "ok \<longleftrightarrow> (\<exists>fs1 fs2. (if backup a then make_backup w fs image_path else Inr fs) = Inr fs1
                             \<and> open_and_save w fs1 image_path ?dst (quality a) = Inr fs2)"
    using cv by (auto simp: convert_to_webp_def ws split: sum.splits if_splits)
  have loop: "\<exists>n. convert_images w a (image_path # images) (fs, t)
                 = convert_images w a images
                     (fs', t\<lparr>total_original_size := total_original_size t + n,
                             failed := failed t @ [image_path]\<rparr>)"
    if "\<not> ok" "\<not> dry_run a" "is_file fs image_path" for t images
  proof -
    from that(3) obtain data where d: "files fs image_path = Some data"
      by (auto simp: is_file_def)
    have "convert_one w a image_path (fs, t)
          = (fs', Inr (t\<lparr>total_original_size := total_original_size t + length data,
                          failed := failed t @ [image_path]\<rparr>))"
      using that(1,2) by (simp add: convert_one_def st_size_def d cv Let_def)
    then show ?thesis by (intro exI[of _ "length data"]) simp
  qed
  show ?thesis using ws cv okiff loop by blast
qed

theorem transcode_failure_isolated_witness:
  "lower (suffix [''/'', ''site'', ''a'', ''x.jpg'']) \<in> IMAGE_EXTENSIONS
   \<and> \<not> dry_run (run_args False False False)
   \<and> is_file (site_files ''corrupt'' ''JPEG'') [''/'', ''site'', ''a'', ''x.jpg'']
   \<and> (\<exists>n. convert_images site_world (run_args False False False)
              [[''/'', ''site'', ''a'', ''x.jpg''], [''/'', ''site'', ''b'', ''x.jpg'']]
              (site_files ''corrupt'' ''JPEG'', empty_tally)
          = convert_images site_world (run_args False False False)
              [[''/'', ''site'', ''b'', ''x.jpg'']]
              (site_files ''corrupt'' ''JPEG'',
               empty_tally\<lparr>total_original_size := total_original_size empty_tally + n,
                           failed := failed empty_tally @ [[''/'', ''site'', ''a'', ''x.jpg'']]\<rparr>))"
proof -
  let ?p = "[''/'', ''site'', ''a'', ''x.jpg'']"
  let ?fs = "site_files ''corrupt'' ''JPEG''"
  let ?a = "run_args False False False"
  have h: "lower (suffix ?p) \<in> IMAGE_EXTENSIONS" by (simp add: eval_simps)
  have d: "\<not> dry_run ?a" by (simp add: run_args_def)
  have f: "is_file ?fs ?p" by (simp add: is_file_def site_simps)
  have c: "convert_to_webp site_world ?fs ?p (quality ?a) (backup ?a)
           = Inr (?fs, [''/'', ''site'', ''a'', ''x.webp''], False)"
    by (simp add: convert_to_webp_def open_and_save_def site_simps eval_simps)
  from transcode_failure_isolated[OF h, of site_world ?fs ?a] obtain fs' dst ok where
    cv: "convert_to_webp site_world ?fs ?p (quality ?a) (backup ?a) = Inr (fs', dst, ok)" and
    imp: "\<not> ok \<longrightarrow> \<not> dry_run ?a \<longrightarrow> is_file ?fs ?p \<longrightarrow>
          (\<forall>t images. \<exists>n.
             convert_images site_world ?a (?p # images) (?fs, t)
             = convert_images site_world ?a images
                 (fs', t\<lparr>total_original_size := total_original_size t + n,
                         failed := failed t @ [?p]\<rparr>))"
    by blast
  from cv c have e: "fs' = ?fs" "\<not> ok" by simp_all
  have "\<exists>n. convert_images site_world ?a (?p # [[''/'', ''site'', ''b'', ''x.jpg'']]) (?fs, empty_tally)
          = convert_images site_world ?a [[''/'', ''site'', ''b'', ''x.jpg'']]
              (?fs, empty_tally\<lparr>total_original_size := total_original_size empty_tally + n,
                                failed := failed empty_tally @ [?p]\<rparr>)"
    using imp d f e by blast
  with h d f show ?thesis by blast
qed

subsection \<open>What a conversion may change\<close>

lemma with_suffix_dot:
  assumes ws: "with_suffix p (s0 @ CHR ''.'' # e) = Inr d" and e: "CHR ''.'' \<notin> set e" "e \<noteq> []"
  shows "name d = (if suffix_of (name p) = [] then name p
                   else take (length (name p) - length (suffix_of (name p))) (name p))
                  @ s0 @ CHR ''.'' # e"
    and "d = butlast p @ [name d]"
    and "suffix d = CHR ''.'' # e"
    and "name p \<noteq> []"
proof -
  let ?X = "if suffix_of (name p) = [] then name p
            else take (length (name p) - length (suffix_of (name p))) (name p)"
  let ?nm = "?X @ s0 @ CHR ''.'' # e"
  have n: "name p \<noteq> []" using ws by (auto simp: with_suffix_def split: if_splits)
  have sl: "CHR ''/'' \<notin> set (s0 @ CHR ''.'' # e)"
    using ws by (auto simp: with_suffix_def split: if_splits)
  have d: "d = butlast p @ [?nm]"
    using ws by (auto simp: with_suffix_def suffix_def split: if_splits)
  have "suffix_of (name p) \<noteq> [] \<Longrightarrow> take (length (name p) - length (suffix_of (name p))) (name p) = stem_of (name p)"
    using suffix_of_split(1)[of "name p"]
    by (metis append_eq_conv_conj length_append add_diff_cancel_right')
  then have X: "?X \<noteq> []" using n suffix_of_split(2)[of "name p"] by auto
  have "last ?nm = last e" using e by simp
  moreover have "last e \<in> set e" using e by simp
  ultimately have "last ?nm \<noteq> CHR ''/''" using sl by auto
  then have ne: "?nm \<noteq> ''/''" by (metis last.simps)
  have nm: "name d = ?nm" unfolding d using ne by (intro name_snoc) simp_all
  show "name d = ?nm" by (rule nm)
  show "d = butlast p @ [name d]" using d nm by simp
  have "suffix_of ((?X @ s0) @ CHR ''.'' # e) = CHR ''.'' # e"
    using X e by (intro stem_suffix_append(2)) simp_all
  then show "suffix d = CHR ''.'' # e" by (simp add: suffix_def nm)
  show "name p \<noteq> []" by (rule n)
qed

lemma with_suffix_webp_name:
  assumes "with_suffix p ''.webp'' = Inr d"
  shows "name d = (if suffix_of (name p) = [] then name p
                   else take (length (name p) - length (suffix_of (name p))) (name p)) @ ''.webp''"
    and "suffix d = ''.webp''" and "name p \<noteq> []"
  using with_suffix_dot[of p "[]" "''webp''" d] assms by simp_all

lemma with_suffix_backup_suffix:
  assumes "with_suffix p (s @ ''.backup'') = Inr d"
  shows "suffix d = ''.backup''"
  using with_suffix_dot(3)[of p s "''backup''" d] assms by simp

lemma with_suffix_total: "name p \<noteq> [] \<Longrightarrow> \<exists>d. with_suffix p ''.webp'' = Inr d"
  by (simp add: with_suffix_def)

lemma webp_name_cong:
  assumes "with_suffix p ''.webp'' = Inr d" "with_suffix q ''.webp'' = Inr dq" "name p = name q"
  shows "name d = name dq"
  using with_suffix_webp_name(1)[OF assms(1)] with_suffix_webp_name(1)[OF assms(2)] assms(3)
  by simp

lemma image_suffix_not_written:
  assumes "lower (suffix x) \<in> IMAGE_EXTENSIONS"
  shows "suffix x \<noteq> ''.webp''" "suffix x \<noteq> ''.backup''"
  using assms by (auto simp: IMAGE_EXTENSIONS_def lower_def lower_char_def)

lemma make_backup_frame:
  assumes "make_backup w fs p = Inr fs1"
  shows "files fs1 x \<noteq> files fs x \<longrightarrow> suffix x = ''.backup''"
    and "is_file fs x \<longrightarrow> is_file fs1 x"
    and "\<forall>y. Unlinked y \<in> set (effects fs1) \<longrightarrow> Unlinked y \<in> set (effects fs)"
  using assms with_suffix_backup_suffix[of p "suffix p"]
  by (auto simp: make_backup_def copy2_def is_file_def split: sum.splits if_splits option.splits)

lemma open_and_save_frame:
  assumes "open_and_save w fs p dst q = Inr fs1"
  shows "files fs1 x \<noteq> files fs x \<longrightarrow> x = dst"
    and "is_file fs x \<longrightarrow> is_file fs1 x"
    and "is_file fs1 dst"
    and "\<forall>y. Unlinked y \<in> set (effects fs1) \<longrightarrow> Unlinked y \<in> set (effects fs)"
  using assms
  by (auto simp: open_and_save_def is_file_def split: sum.splits if_splits option.splits)

lemma convert_to_webp_frame:
  assumes "convert_to_webp w fs p q b = Inr (fs', dst, ok)"
  shows "files fs' x \<noteq> files fs x \<longrightarrow> suffix x = ''.webp'' \<or> suffix x = ''.backup''"
    and "is_file fs x \<longrightarrow> is_file fs' x"
    and "with_suffix p ''.webp'' = Inr dst"
    and "ok \<longrightarrow> is_file fs' dst"
    and "\<forall>y. Unlinked y \<in> set (effects fs') \<longrightarrow> Unlinked y \<in> set (effects fs)"
proof -
  from assms have ws: "with_suffix p ''.webp'' = Inr dst"
    by (auto simp: convert_to_webp_def split: sum.splits)
  show "with_suffix p ''.webp'' = Inr dst" by (rule ws)
  have sd: "suffix dst = ''.webp''" using with_suffix_webp_name(2)[OF ws] .
  obtain fs1 where fs1: "fs1 = fs \<or> make_backup w fs p = Inr fs1"
    and r: "(fs' = fs1 \<and> \<not> ok) \<or> (open_and_save w fs1 p dst q = Inr fs' \<and> ok)"
    using assms ws by (auto simp: convert_to_webp_def split: sum.splits if_splits)
  have a1: "files fs1 x \<noteq> files fs x \<longrightarrow> suffix x = ''.backup''"
    using fs1 make_backup_frame(1)[of w fs p fs1 x] by auto
  have a2: "is_file fs x \<longrightarrow> is_file fs1 x"
    using fs1 make_backup_frame(2)[of w fs p fs1 x] by auto
  have a3: "\<forall>y. Unlinked y \<in> set (effects fs1) \<longrightarrow> Unlinked y \<in> set (effects fs)"
    using fs1 make_backup_frame(3)[of w fs p fs1] by auto
  show "files fs' x \<noteq> files fs x \<longrightarrow> suffix x = ''.webp'' \<or> suffix x = ''.backup''"
    using r a1 sd open_and_save_frame(1)[of w fs1 p dst q fs' x] by auto
  show "is_file fs x \<longrightarrow> is_file fs' x"
    using r a2 open_and_save_frame(2)[of w fs1 p dst q fs' x] by auto
  show "ok \<longrightarrow> is_file fs' dst"
    using r open_and_save_frame(3)[of w fs1 p dst q fs'] by auto
  show "\<forall>y. Unlinked y \<in> set (effects fs') \<longrightarrow> Unlinked y \<in> set (effects fs)"
    using r a3 open_and_save_frame(4)[of w fs1 p dst q fs'] by auto
qed

subsection \<open>The conversion loop\<close>

lemma convert_one_cases:
  assumes "convert_one w a p (fs, t) = (fs', Inr t')"
  shows "\<exists>n dst. st_size fs p = Inr n \<and> with_suffix p ''.webp'' = Inr dst \<and>
     ((dry_run a \<and> fs' = fs \<and>
        t' = t\<lparr>total_original_size := total_original_size t + n,
               converted := converted t @ [(p, dst)],
               image_mappings := AList.update (name p) (name dst) (image_mappings t)\<rparr>)
    \<or> (\<not> dry_run a \<and> convert_to_webp w fs p (quality a) (backup a) = Inr (fs', dst, True) \<and>
        (\<exists>m. t' = t\<lparr>total_original_size := total_original_size t + n,
               total_new_size := total_new_size t + m,
               converted := converted t @ [(p, dst)],
               image_mappings := AList.update (name p) (name dst) (image_mappings t)\<rparr>))
    \<or> (\<not> dry_run a \<and> convert_to_webp w fs p (quality a) (backup a) = Inr (fs', dst, False) \<and>
        t' = t\<lparr>total_original_size := total_original_size t + n,
               failed := failed t @ [p]\<rparr>))"
proof -
  from assms obtain n where n: "st_size fs p = Inr n"
    by (auto simp: convert_one_def split: sum.splits)
  show ?thesis
  proof (cases "dry_run a")
    case True
    with assms n show ?thesis
      by (auto simp: convert_one_def Let_def split: sum.splits)
  next
    case False
    with assms n obtain fs1 dst ok where
      c: "convert_to_webp w fs p (quality a) (backup a) = Inr (fs1, dst, ok)"
      by (auto simp: convert_one_def Let_def split: sum.splits)
    have ws: "with_suffix p ''.webp'' = Inr dst" using convert_to_webp_frame(3)[OF c] .
    from assms n False c ws show ?thesis
      by (cases ok) (auto simp: convert_one_def Let_def split: sum.splits if_splits)
  qed
qed

lemma convert_one_failed_mono:
  assumes "convert_one w a p (fs, t) = (fs', Inr t')"
  shows "length (failed t) \<le> length (failed t')"
  using convert_one_cases[OF assms] by auto

lemma convert_images_failed_mono:
  "convert_images w a images (fs, t) = (fs', Inr t') \<Longrightarrow> length (failed t) \<le> length (failed t')"
proof (induction images arbitrary: fs t)
  case Nil then show ?case by simp
next
  case (Cons p images)
  from Cons.prems obtain fs1 t1 where s: "convert_one w a p (fs, t) = (fs1, Inr t1)"
    and r: "convert_images w a images (fs1, t1) = (fs', Inr t')"
    by (auto split: prod.splits sum.splits)
  from convert_one_failed_mono[OF s] Cons.IH[OF r] show ?case by simp
qed

lemma dry_agrees:
  assumes "\<forall>p\<in>set images. lower (suffix p) \<in> IMAGE_EXTENSIONS"
    and "\<forall>p\<in>set images. files fsr p = files fsd p"
    and "\<not> dry_run a"
    and "convert_images w a images (fsr, t) = (fs', Inr tr)"
    and "length (failed tr) = length (failed t)"
  shows "convert_images w (a\<lparr>dry_run := True\<rparr>) images (fsd, t\<lparr>total_new_size := k\<rparr>)
         = (fsd, Inr (tr\<lparr>total_new_size := k\<rparr>))"
  using assms
proof (induction images arbitrary: fsr t)
  case Nil then show ?case by simp
next
  case (Cons p images)
  from Cons.prems(4) obtain fs1 t1 where s: "convert_one w a p (fsr, t) = (fs1, Inr t1)"
    and r: "convert_images w a images (fs1, t1) = (fs', Inr tr)"
    by (auto split: prod.splits sum.splits)
  have fm: "length (failed t1) \<le> length (failed tr)" using convert_images_failed_mono[OF r] .
  from convert_one_cases[OF s] Cons.prems(3) obtain n dst where
    n: "st_size fsr p = Inr n" and ws: "with_suffix p ''.webp'' = Inr dst" and
    alt: "(convert_to_webp w fsr p (quality a) (backup a) = Inr (fs1, dst, True) \<and>
        (\<exists>m. t1 = t\<lparr>total_original_size := total_original_size t + n,
               total_new_size := total_new_size t + m,
               converted := converted t @ [(p, dst)],
               image_mappings := AList.update (name p) (name dst) (image_mappings t)\<rparr>))
    \<or> (convert_to_webp w fsr p (quality a) (backup a) = Inr (fs1, dst, False) \<and>
        t1 = t\<lparr>total_original_size := total_original_size t + n,
               failed := failed t @ [p]\<rparr>)"
    by auto
  from alt fm Cons.prems(5) obtain m where
    c: "convert_to_webp w fsr p (quality a) (backup a) = Inr (fs1, dst, True)" and
    t1: "t1 = t\<lparr>total_original_size := total_original_size t + n,
               total_new_size := total_new_size t + m,
               converted := converted t @ [(p, dst)],
               image_mappings := AList.update (name p) (name dst) (image_mappings t)\<rparr>"
    by auto
  have agree1: "\<forall>q\<in>set images. files fs1 q = files fsd q"
  proof
    fix q assume q: "q \<in> set images"
    then have "lower (suffix q) \<in> IMAGE_EXTENSIONS" using Cons.prems(1) by simp
    then have "files fs1 q = files fsr q"
      using convert_to_webp_frame(1)[OF c, of q] image_suffix_not_written[of q] by auto
    then show "files fs1 q = files fsd q" using Cons.prems(2) q by simp
  qed
  have l1: "length (failed tr) = length (failed t1)" using Cons.prems(5) t1 by simp
  have ih: "convert_images w (a\<lparr>dry_run := True\<rparr>) images (fsd, t1\<lparr>total_new_size := k\<rparr>)
         = (fsd, Inr (tr\<lparr>total_new_size := k\<rparr>))"
    using Cons.IH[OF _ agree1 Cons.prems(3) r l1] Cons.prems(1) by simp
  have nd: "st_size fsd p = Inr n" using n Cons.prems(2) by (simp add: st_size_def)
  have "convert_one w (a\<lparr>dry_run := True\<rparr>) p (fsd, t\<lparr>total_new_size := k\<rparr>)
        = (fsd, Inr (t1\<lparr>total_new_size := k\<rparr>))"
    by (simp add: convert_one_def nd ws Let_def t1)
  then show ?case using ih by simp
qed

lemma find_images_suffix:
  "p \<in> set (find_images w fs root_dir) \<Longrightarrow> lower (suffix p) \<in> IMAGE_EXTENSIONS"
  by (simp add: find_images_def)

lemmas run_simps = convert_one_def convert_to_webp_def open_and_save_def make_backup_def
  copy2_def st_size_def empty_tally_def find_images_def excluded_def EXCLUDE_DIRS_def
  is_file_def path_exists_def

text \<open>
  Claim C2, as the code has it. The claim as stated fails: a real run leaves an image whose
  conversion fails out of the mapping, while the dry run, which converts nothing, enters
  every image. What holds: when the real run over the images found reports no failure,
  the dry run over the same images yields the same tally (the same mapping, the same
  converted pairs, no failures, the same total original size) except for the total new
  size, which only the real run computes and the dry run leaves at 0; the dry run leaves
  the file system as it was.
\<close>

theorem dry_run_agrees_without_failures:
  assumes "\<not> dry_run a"
    and "convert_images w a (find_images w fs root_dir) (fs, empty_tally) = (fs', Inr tr)"
    and "failed tr = []"
  shows "convert_images w (a\<lparr>dry_run := True\<rparr>) (find_images w fs root_dir) (fs, empty_tally)
         = (fs, Inr (tr\<lparr>total_new_size := 0\<rparr>))"
proof -
  have e: "empty_tally\<lparr>total_new_size := 0\<rparr> = empty_tally" by (simp add: empty_tally_def)
  have "length (failed tr) = length (failed empty_tally)"
    using assms(3) by (simp add: empty_tally_def)
  from dry_agrees[OF _ _ assms(1) assms(2) this, of fs 0] find_images_suffix[of _ w fs root_dir]
  show ?thesis by (simp add: e)
qed

theorem dry_run_agrees_without_failures_witness:
  "\<not> dry_run (run_args False False False)
   \<and> map_sum id failed
        (snd (convert_images site_world (run_args False False False)
               (find_images site_world (site_files ''JPEGa'' ''JPEG-b'') [''/'', ''site''])
               (site_files ''JPEGa'' ''JPEG-b'', empty_tally))) = Inr []
   \<and> map_sum id image_mappings
        (snd (convert_images site_world ((run_args False False False)\<lparr>dry_run := True\<rparr>)
               (find_images site_world (site_files ''JPEGa'' ''JPEG-b'') [''/'', ''site''])
               (site_files ''JPEGa'' ''JPEG-b'', empty_tally)))
     = map_sum id image_mappings
        (snd (convert_images site_world (run_args False False False)
               (find_images site_world (site_files ''JPEGa'' ''JPEG-b'') [''/'', ''site''])
               (site_files ''JPEGa'' ''JPEG-b'', empty_tally)))"
proof -
  let ?fs = "site_files ''JPEGa'' ''JPEG-b''"
  let ?a = "run_args False False False"
  let ?im = "find_images site_world ?fs [''/'', ''site'']"
  have d: "\<not> dry_run ?a" by (simp add: run_args_def)
  have f: "?im = [[''/'', ''site'', ''a'', ''x.jpg''], [''/'', ''site'', ''b'', ''x.jpg'']]"
    by (simp add: site_simps run_simps eval_simps)
  obtain fs' r where r: "convert_images site_world ?a ?im (?fs, empty_tally) = (fs', r)"
    by (cases "convert_images site_world ?a ?im (?fs, empty_tally)") auto
  have "map_sum id failed r = Inr []"
    using r unfolding f by (auto simp add: site_simps run_simps eval_simps)
  then obtain tr where tr: "r = Inr tr" "failed tr = []" by (cases r) auto
  from dry_run_agrees_without_failures[OF d r[unfolded tr(1)] tr(2)] r tr d
  show ?thesis by simp
qed

text \<open>
  The counterexample to C2 as stated: one image whose content the codec rejects. The dry
  run maps \<open>x.jpg\<close> to \<open>x.webp\<close>; the real run has an empty mapping.
\<close>

theorem dry_run_mapping_counterexample:
  "find_images site_world broken_photo_site [''/'', ''site''] = [[''/'', ''site'', ''a'', ''x.jpg'']]
   \<and> map_sum id image_mappings
        (snd (convert_images site_world (run_args True False False)
               (find_images site_world broken_photo_site [''/'', ''site''])
               (broken_photo_site, empty_tally)))
       = Inr [(''x.jpg'', ''x.webp'')]
   \<and> map_sum id image_mappings
        (snd (convert_images site_world (run_args False False False)
               (find_images site_world broken_photo_site [''/'', ''site''])
               (broken_photo_site, empty_tally)))
       = Inr []"
proof -
  have f: "find_images site_world broken_photo_site [''/'', ''site''] = [[''/'', ''site'', ''a'', ''x.jpg'']]"
    by (simp add: broken_photo_site_def site_simps run_simps eval_simps)
  show ?thesis unfolding f
    by (simp add: broken_photo_site_def site_simps run_simps eval_simps)
qed

subsection \<open>Images that share a basename\<close>

lemma distinct_one_entry:
  "distinct (map fst m) \<Longrightarrow> map_of m k = Some v \<Longrightarrow> length (filter (\<lambda>e. fst e = k) m) = 1"
proof (induction m)
  case Nil then show ?case by simp
next
  case (Cons e m)
  show ?case
  proof (cases "fst e = k")
    case True
    then have "k \<notin> fst ` set m" using Cons.prems(1) by auto
    then have "filter (\<lambda>e. fst e = k) m = []" by (auto simp: filter_empty_conv)
    with True show ?thesis by simp
  next
    case False
    with Cons show ?thesis by (cases e) auto
  qed
qed

lemma mapping_inv_add:
  assumes inv: "mapping_inv t" and ws: "with_suffix p ''.webp'' = Inr dst"
    and c: "converted t' = converted t @ [(p, dst)]"
    and m: "image_mappings t' = AList.update (name p) (name dst) (image_mappings t)"
  shows "mapping_inv t'"
proof -
  have d: "distinct (map fst (image_mappings t'))"
    using inv by (simp add: m mapping_inv_def distinct_update)
  have each: "with_suffix q ''.webp'' = Inr dq \<and> map_of (image_mappings t') (name q) = Some (name dq)"
    if "(q, dq) \<in> set (converted t')" for q dq
  proof (cases "(q, dq) = (p, dst)")
    case True
    then show ?thesis using ws by (simp add: m update_conv')
  next
    case False
    with that c have "(q, dq) \<in> set (converted t)" by auto
    with inv have o: "with_suffix q ''.webp'' = Inr dq"
      "map_of (image_mappings t) (name q) = Some (name dq)"
      by (auto simp: mapping_inv_def)
    show ?thesis
    proof (cases "name q = name p")
      case True
      then have "name dq = name dst" using webp_name_cong[OF o(1) ws] by simp
      with o True show ?thesis by (simp add: m update_conv')
    next
      case False
      with o show ?thesis by (simp add: m update_conv')
    qed
  qed
  show ?thesis unfolding mapping_inv_def using d each by blast
qed

lemma convert_one_inv:
  assumes "convert_one w a p (fs, t) = (fs', Inr t')" "mapping_inv t"
  shows "mapping_inv t'"
    and "fst ` set (converted t') \<subseteq> insert p (fst ` set (converted t))"
    and "fst ` set (converted t) \<subseteq> fst ` set (converted t')"
    and "dry_run a \<longrightarrow> p \<in> fst ` set (converted t')"
proof -
  from convert_one_cases[OF assms(1)] obtain n dst where
    ws: "with_suffix p ''.webp'' = Inr dst" and
    alt: "(converted t' = converted t @ [(p, dst)] \<and>
           image_mappings t' = AList.update (name p) (name dst) (image_mappings t))
        \<or> (\<not> dry_run a \<and> converted t' = converted t \<and> image_mappings t' = image_mappings t)"
    by auto
  from alt show "mapping_inv t'"
  proof (elim disjE conjE)
    assume "converted t' = converted t @ [(p, dst)]"
      "image_mappings t' = AList.update (name p) (name dst) (image_mappings t)"
    then show ?thesis by (rule mapping_inv_add[OF assms(2) ws])
  next
    assume "converted t' = converted t" "image_mappings t' = image_mappings t"
    then show ?thesis using assms(2) by (simp only: mapping_inv_def) blast
  qed
  show "fst ` set (converted t') \<subseteq> insert p (fst ` set (converted t))"
    using alt by auto
  show "fst ` set (converted t) \<subseteq> fst ` set (converted t')"
    using alt by auto
  show "dry_run a \<longrightarrow> p \<in> fst ` set (converted t')"
    using alt by auto
qed

lemma convert_images_inv:
  assumes "convert_images w a images (fs, t) = (fs', Inr t')" "mapping_inv t"
  shows "mapping_inv t'"
    and "fst ` set (converted t') \<subseteq> set images \<union> fst ` set (converted t)"
    and "fst ` set (converted t) \<subseteq> fst ` set (converted t')"
    and "dry_run a \<longrightarrow> set images \<subseteq> fst ` set (converted t')"
  using assms
proof (induction images arbitrary: fs t)
  case Nil
  { case 1 then show ?case by simp }
  { case 2 then show ?case by simp }
  { case 3 then show ?case by simp }
  { case 4 then show ?case by simp }
next
  case (Cons p images)
  { case 1
    from 1(1) obtain fs1 t1 where s: "convert_one w a p (fs, t) = (fs1, Inr t1)"
      and r: "convert_images w a images (fs1, t1) = (fs', Inr t')"
      by (auto split: prod.splits sum.splits)
    from Cons.IH(1)[OF r convert_one_inv(1)[OF s 1(2)]] show ?case . }
  { case 2
    from 2(1) obtain fs1 t1 where s: "convert_one w a p (fs, t) = (fs1, Inr t1)"
      and r: "convert_images w a images (fs1, t1) = (fs', Inr t')"
      by (auto split: prod.splits sum.splits)
    from Cons.IH(2)[OF r convert_one_inv(1)[OF s 2(2)]] convert_one_inv(2)[OF s 2(2)]
    show ?case by auto }
  { case 3
    from 3(1) obtain fs1 t1 where s: "convert_one w a p (fs, t) = (fs1, Inr t1)"
      and r: "convert_images w a images (fs1, t1) = (fs', Inr t')"
      by (auto split: prod.splits sum.splits)
    from Cons.IH(3)[OF r convert_one_inv(1)[OF s 3(2)]] convert_one_inv(3)[OF s 3(2)]
    show ?case by auto }
  { case 4
    from 4(1) obtain fs1 t1 where s: "convert_one w a p (fs, t) = (fs1, Inr t1)"
      and r: "convert_images w a images (fs1, t1) = (fs', Inr t')"
      by (auto split: prod.splits sum.splits)
    from Cons.IH(4)[OF r convert_one_inv(1)[OF s 4(2)]] Cons.IH(3)[OF r convert_one_inv(1)[OF s 4(2)]]
      convert_one_inv(4)[OF s 4(2)]
    show ?case by auto }
qed

text \<open>
  Claim C9, as the code has it. The claim as stated fails when every image with the
  basename fails in a real run: the mapping then has no entry for it. What holds: when
  an image \<open>p\<close> has been converted (in a dry run every image is), the mapping has exactly
  one entry under the name of \<open>p\<close>, and its value is the name of the WebP sibling of the
  last image in scan order that has this name.
\<close>

theorem shared_basename_entry:
  assumes run: "convert_images w a images (fs, empty_tally) = (fs', Inr t)"
    and conv: "(p, d) \<in> set (converted t)"
  shows "length (filter (\<lambda>e. fst e = name p) (image_mappings t)) = 1
       \<and> (\<exists>dq. with_suffix (last (filter (\<lambda>q. name q = name p) images)) ''.webp'' = Inr dq
              \<and> map_of (image_mappings t) (name p) = Some (name dq))
       \<and> (dry_run a \<longrightarrow> set images \<subseteq> fst ` set (converted t))"
proof -
  have i0: "mapping_inv empty_tally" by (simp add: mapping_inv_def empty_tally_def)
  note inv = convert_images_inv[OF run i0]
  from inv(1) conv have ws: "with_suffix p ''.webp'' = Inr d"
    and mp: "map_of (image_mappings t) (name p) = Some (name d)"
    and ds: "distinct (map fst (image_mappings t))"
    by (auto simp: mapping_inv_def)
  have one: "length (filter (\<lambda>e. fst e = name p) (image_mappings t)) = 1"
    using distinct_one_entry[OF ds mp] .
  have "p \<in> set images" using inv(2) conv by (force simp: empty_tally_def)
  then have ne: "filter (\<lambda>q. name q = name p) images \<noteq> []"
    by (auto simp: filter_empty_conv)
  let ?q = "last (filter (\<lambda>q. name q = name p) images)"
  have "?q \<in> set (filter (\<lambda>q. name q = name p) images)" using ne by (rule last_in_set)
  then have nq: "name ?q = name p" by simp
  have "name p \<noteq> []" using with_suffix_webp_name(3)[OF ws] .
  then obtain dq where dq: "with_suffix ?q ''.webp'' = Inr dq"
    using with_suffix_total[of ?q] nq by auto
  have "name dq = name d" using webp_name_cong[OF dq ws nq] .
  with dq mp one inv(4) show ?thesis by auto
qed

theorem shared_basename_entry_witness:
  "map_sum id converted
     (snd (convert_images site_world (run_args False False False)
            [[''/'', ''site'', ''a'', ''x.jpg''], [''/'', ''site'', ''b'', ''x.jpg'']]
            (site_files ''JPEGa'' ''corrupt'', empty_tally)))
     = Inr [([''/'', ''site'', ''a'', ''x.jpg''], [''/'', ''site'', ''a'', ''x.webp''])]
   \<and> map_sum id (\<lambda>t. length (filter (\<lambda>e. fst e = ''x.jpg'') (image_mappings t)))
        (snd (convert_images site_world (run_args False False False)
            [[''/'', ''site'', ''a'', ''x.jpg''], [''/'', ''site'', ''b'', ''x.jpg'']]
            (site_files ''JPEGa'' ''corrupt'', empty_tally)))
     = Inr 1
   \<and> map_sum id (\<lambda>t. map_of (image_mappings t) ''x.jpg'')
        (snd (convert_images site_world (run_args False False False)
            [[''/'', ''site'', ''a'', ''x.jpg''], [''/'', ''site'', ''b'', ''x.jpg'']]
            (site_files ''JPEGa'' ''corrupt'', empty_tally)))
     = Inr (Some ''x.webp'')"
proof -
  let ?pa = "[''/'', ''site'', ''a'', ''x.jpg'']"
  let ?pb = "[''/'', ''site'', ''b'', ''x.jpg'']"
  let ?fs = "site_files ''JPEGa'' ''corrupt''"
  let ?a = "run_args False False False"
  obtain fs' r where r: "convert_images site_world ?a [?pa, ?pb] (?fs, empty_tally) = (fs', r)"
    by (cases "convert_images site_world ?a [?pa, ?pb] (?fs, empty_tally)") auto
  have "map_sum id converted r = Inr [(?pa, [''/'', ''site'', ''a'', ''x.webp''])]"
    using r by (auto simp add: site_simps run_simps eval_simps)
  then obtain t where t: "r = Inr t" "converted t = [(?pa, [''/'', ''site'', ''a'', ''x.webp''])]"
    by (cases r) auto
  have c: "(?pa, [''/'', ''site'', ''a'', ''x.webp'']) \<in> set (converted t)" using t(2) by simp
  have nm: "name ?pa = ''x.jpg''" by (simp add: eval_simps)
  have l: "last (filter (\<lambda>q. name q = name ?pa) [?pa, ?pb]) = ?pb" by (simp add: eval_simps)
  have ws: "with_suffix ?pb ''.webp'' = Inr [''/'', ''site'', ''b'', ''x.webp'']"
    by (simp add: eval_simps)
  have nw: "name [''/'', ''site'', ''b'', ''x.webp''] = ''x.webp''" by (simp add: eval_simps)
  from shared_basename_entry[OF r[unfolded t(1)] c] obtain dq where
    one: "length (filter (\<lambda>e. fst e = name ?pa) (image_mappings t)) = 1" and
    dq: "with_suffix (last (filter (\<lambda>q. name q = name ?pa) [?pa, ?pb])) ''.webp'' = Inr dq"
      "map_of (image_mappings t) (name ?pa) = Some (name dq)"
    by blast
  from dq(1) have "dq = [''/'', ''site'', ''b'', ''x.webp'']" unfolding l ws by simp
  with dq(2) have mp: "map_of (image_mappings t) ''x.jpg'' = Some ''x.webp''"
    unfolding nm by (simp add: nw)
  have one': "length (filter (\<lambda>e. fst e = ''x.jpg'') (image_mappings t)) = 1"
    using one unfolding nm .
  show ?thesis unfolding r t(1) using t(2) one' mp by simp
qed

text \<open>
  The counterexample to C9 as stated: two images with the basename \<open>x.jpg\<close>, both rejected
  by the codec, in a real run. The mapping is empty.
\<close>

theorem shared_basename_counterexample:
  "name [''/'', ''site'', ''a'', ''x.jpg''] = name [''/'', ''site'', ''b'', ''x.jpg'']
   \<and> find_images site_world (site_files ''corrupt'' ''corrupt'') [''/'', ''site'']
       = [[''/'', ''site'', ''a'', ''x.jpg''], [''/'', ''site'', ''b'', ''x.jpg'']]
   \<and> map_sum id image_mappings
        (snd (convert_images site_world (run_args False False False)
               [[''/'', ''site'', ''a'', ''x.jpg''], [''/'', ''site'', ''b'', ''x.jpg'']]
               (site_files ''corrupt'' ''corrupt'', empty_tally)))
       = Inr []"
  by (simp add: site_simps run_simps eval_simps)

subsection \<open>What \<^verbatim>\<open>main\<close> may change\<close>

lemma convert_one_frame:
  assumes "convert_one w a p (fs, t) = (fs', r)"
  shows "is_file fs x \<longrightarrow> is_file fs' x"
    and "dry_run a \<longrightarrow> fs' = fs"
proof -
  have "fs' = fs \<or> (\<not> dry_run a \<and> (\<exists>dst ok. convert_to_webp w fs p (quality a) (backup a) = Inr (fs', dst, ok)))"
    using assms by (auto simp: convert_one_def Let_def split: sum.splits if_splits)
  then show "is_file fs x \<longrightarrow> is_file fs' x" "dry_run a \<longrightarrow> fs' = fs"
    using convert_to_webp_frame(2)[of w fs p "quality a" "backup a" fs' _ _ x] by auto
qed

lemma convert_images_frame:
  "convert_images w a images (fs, t) = (fs', r) \<Longrightarrow>
     (is_file fs x \<longrightarrow> is_file fs' x) \<and> (dry_run a \<longrightarrow> fs' = fs)"
proof (induction images arbitrary: fs t)
  case Nil then show ?case by auto
next
  case (Cons p images)
  obtain fs1 r1 where s: "convert_one w a p (fs, t) = (fs1, r1)"
    by (cases "convert_one w a p (fs, t)") auto
  note f = convert_one_frame(1)[OF s, of x] convert_one_frame(2)[OF s]
  show ?case
  proof (cases r1)
    case (Inl e)
    with Cons.prems s have "fs' = fs1" by simp
    with f show ?thesis by auto
  next
    case (Inr t1)
    with Cons.prems s have "convert_images w a images (fs1, t1) = (fs', r)" by simp
    from Cons.IH[OF this] f show ?thesis by auto
  qed
qed

lemma update_references_frame:
  assumes "update_references_in_file w fs p m dry = (fs', n)"
  shows "is_file fs' x \<longleftrightarrow> is_file fs x" and "dry \<longrightarrow> fs' = fs"
  using assms
  by (auto simp: update_references_in_file_def read_text_def write_text_def is_file_def
           split: sum.splits option.splits if_splits prod.splits)

lemma update_all_frame:
  "update_all w a m code_files (fs, u, r) = (fs', u', r') \<Longrightarrow>
     (is_file fs' x \<longleftrightarrow> is_file fs x) \<and> (dry_run a \<longrightarrow> fs' = fs)"
proof (induction code_files arbitrary: fs u r)
  case Nil then show ?case by simp
next
  case (Cons c code_files)
  obtain fs1 n where s: "update_references_in_file w fs c m (dry_run a) = (fs1, n)"
    by (cases "update_references_in_file w fs c m (dry_run a)") auto
  note f = update_references_frame(1)[OF s, of x] update_references_frame(2)[OF s]
  from Cons.prems s have "\<exists>u1 r1. update_all w a m code_files (fs1, u1, r1) = (fs', u', r')"
    by (auto split: if_splits)
  then obtain u1 r1 where "update_all w a m code_files (fs1, u1, r1) = (fs', u', r')" by blast
  from Cons.IH[OF this] f show ?case by auto
qed

lemma delete_loop_frame:
  assumes "delete_loop w conv (fs, n) = (fs', n')"
    and "\<forall>d \<in> snd ` set conv. d \<notin> fst ` set conv"
  shows "(\<forall>x. x \<notin> fst ` set conv \<longrightarrow> files fs' x = files fs x)
       \<and> (\<forall>x. is_file fs x \<and> \<not> is_file fs' x \<longrightarrow>
              (\<exists>d. (x, d) \<in> set conv \<and> path_exists w fs' d) \<and> Unlinked x \<in> set (effects fs'))
       \<and> set (effects fs) \<subseteq> set (effects fs')"
  using assms
proof (induction conv arbitrary: fs n)
  case Nil then show ?case by simp
next
  case (Cons c conv)
  obtain orig dst where c: "c = (orig, dst)" by (cases c)
  have dis: "\<forall>d \<in> snd ` set conv. d \<notin> fst ` set conv" using Cons.prems(2) by auto
  have dst_no: "dst \<notin> fst ` set conv" "dst \<noteq> orig" using Cons.prems(2) c by auto
  obtain fs1 n1 where r: "delete_loop w conv (fs1, n1) = (fs', n')"
    and alt: "fs1 = fs \<or> (path_exists w fs dst \<and> unlink w fs orig = Inr fs1)"
    using Cons.prems(1) c by (auto split: if_splits sum.splits)
  note ih = Cons.IH[OF r dis]
  have u: "unlink w fs orig = Inr fs1 \<Longrightarrow>
             files fs1 = (files fs)(orig := None) \<and> effects fs1 = effects fs @ [Unlinked orig]"
    by (auto simp: unlink_def split: if_splits)
  have p1: "\<forall>x. x \<notin> fst ` set (c # conv) \<longrightarrow> files fs' x = files fs x"
    using ih alt u c by auto
  have p3: "set (effects fs) \<subseteq> set (effects fs')"
    using ih alt u by auto
  have p2: "(\<exists>d. (x, d) \<in> set (c # conv) \<and> path_exists w fs' d) \<and> Unlinked x \<in> set (effects fs')"
    if x: "is_file fs x" "\<not> is_file fs' x" for x
  proof (cases "is_file fs1 x")
    case True
    with ih x show ?thesis by auto
  next
    case False
    with x alt have un: "path_exists w fs dst" "unlink w fs orig = Inr fs1" by auto
    with False x u have xo: "x = orig" by (auto simp: is_file_def split: if_splits)
    have "files fs' dst = files fs1 dst" using ih dst_no by auto
    also have "\<dots> = files fs dst" using u[OF un(2)] dst_no by simp
    finally have "path_exists w fs' dst" using un(1) by (simp add: path_exists_def is_file_def)
    moreover have "Unlinked orig \<in> set (effects fs')" using ih u[OF un(2)] by auto
    ultimately show ?thesis using xo c by auto
  qed
  from p1 p2 p3 show ?case by blast
qed

lemma converted_disjoint:
  assumes run: "convert_images w a images (fs, empty_tally) = (fs', Inr t)"
    and img: "\<forall>p\<in>set images. lower (suffix p) \<in> IMAGE_EXTENSIONS"
  shows "\<forall>d \<in> snd ` set (converted t). d \<notin> fst ` set (converted t)"
proof
  fix d assume "d \<in> snd ` set (converted t)"
  then obtain p where pd: "(p, d) \<in> set (converted t)" by auto
  have i0: "mapping_inv empty_tally" by (simp add: mapping_inv_def empty_tally_def)
  note inv = convert_images_inv[OF run i0]
  from inv(1) pd have "with_suffix p ''.webp'' = Inr d" by (auto simp: mapping_inv_def)
  then have sd: "suffix d = ''.webp''" by (rule with_suffix_webp_name(2))
  show "d \<notin> fst ` set (converted t)"
  proof
    assume "d \<in> fst ` set (converted t)"
    then have "d \<in> set images" using inv(2) by (auto simp: empty_tally_def)
    then have "lower (suffix d) \<in> IMAGE_EXTENSIONS" using img by simp
    with sd image_suffix_not_written(1)[of d] show False by simp
  qed
qed

text \<open>
  Claim C3. In dry-run mode \<^verbatim>\<open>main\<close> returns the file system it was given: the same
  files with the same contents, and no copy, save, write or unlink among the effects.
\<close>

theorem dry_run_changes_nothing:
  assumes "dry_run a"
  shows "fst (main w a fs) = fs"
proof -
  have c: "fs1 = fs" if "convert_images w a images (fs, empty_tally) = (fs1, r)" for images fs1 r
    using convert_images_frame[OF that] assms by simp
  have u: "fs2 = fs1" if "update_all w a m cf (fs1, 0, 0) = (fs2, x, y)" for m cf fs1 fs2 x y
    using update_all_frame[OF that] assms by simp
  show ?thesis
    using assms
    by (auto simp: main_def Let_def split: prod.splits sum.splits dest!: c u)
qed

theorem dry_run_changes_nothing_witness:
  "dry_run (run_args True True True)
   \<and> fst (main site_world (run_args True True True) (site_files ''JPEGa'' ''JPEG-b''))
     = site_files ''JPEGa'' ''JPEG-b''"
proof -
  have d: "dry_run (run_args True True True)" by (simp add: run_args_def)
  from dry_run_changes_nothing[OF d] d show ?thesis by simp
qed

text \<open>
  Claim C7. A file that exists before \<^verbatim>\<open>main\<close> and no longer exists after it was
  removed by the deletion loop: deletion was requested, the run was not a dry run, the
  file is an original whose WebP sibling exists (it existed when the loop checked it and
  it still exists at the end), and the removal is recorded among the effects. So an
  original whose WebP sibling is missing is never deleted.
\<close>

theorem originals_deleted_only_when_safe:
  assumes run: "main w a fs = (fs', out)"
    and before: "is_file fs p"
    and after: "\<not> is_file fs' p"
  shows "delete_originals a \<and> \<not> dry_run a
       \<and> (\<exists>dst. with_suffix p ''.webp'' = Inr dst \<and> path_exists w fs' dst)
       \<and> Unlinked p \<in> set (effects fs')"
proof -
  let ?root = "root_directory w a"
  let ?images = "find_images w fs ?root"
  obtain fs1 r where c: "convert_images w a ?images (fs, empty_tally) = (fs1, r)"
    by (cases "convert_images w a ?images (fs, empty_tally)") auto
  have f1: "is_file fs1 p" using convert_images_frame[OF c, of p] before by simp
  have ne: "fs' \<noteq> fs" using before after by auto
  show ?thesis
  proof (cases r)
    case (Inl e)
    with run c ne have "fs' = fs1"
      by (auto simp: main_def Let_def split: if_splits)
    with f1 after show ?thesis by simp
  next
    case (Inr t)
    obtain fs2 u rp where
      up: "update_all w a (image_mappings t) (find_code_files w fs1 ?root) (fs1, 0, 0) = (fs2, u, rp)"
      by (cases "update_all w a (image_mappings t) (find_code_files w fs1 ?root) (fs1, 0, 0)") auto
    have f2: "is_file fs2 p" using update_all_frame[OF up, of p] f1 by simp
    have del: "delete_originals a \<and> \<not> dry_run a \<and> converted t \<noteq> []
               \<and> (\<exists>n. delete_loop w (converted t) (fs2, 0) = (fs', n))"
    proof (rule ccontr)
      assume "\<not> ?thesis"
      with run c Inr up ne have "fs' = fs2"
        by (auto simp: main_def Let_def split: if_splits prod.splits)
      with f2 after show False by simp
    qed
    then obtain n where dl: "delete_loop w (converted t) (fs2, 0) = (fs', n)" by blast
    have img: "\<forall>q\<in>set ?images. lower (suffix q) \<in> IMAGE_EXTENSIONS"
      by (simp add: find_images_def)
    have dis: "\<forall>d \<in> snd ` set (converted t). d \<notin> fst ` set (converted t)"
      using converted_disjoint[OF c[unfolded Inr] img] .
    from delete_loop_frame[OF dl dis] f2 after obtain d where
      d: "(p, d) \<in> set (converted t)" "path_exists w fs' d" and
      un: "Unlinked p \<in> set (effects fs')"
      by blast
    have i0: "mapping_inv empty_tally" by (simp add: mapping_inv_def empty_tally_def)
    from convert_images_inv(1)[OF c[unfolded Inr] i0] d(1)
    have "with_suffix p ''.webp'' = Inr d" by (auto simp: mapping_inv_def)
    with d(2) un del show ?thesis by blast
  qed
qed

lemmas main_simps = main_def root_directory_def find_code_files_def CODE_EXTENSIONS_def
  unlink_def

theorem originals_deleted_only_when_safe_witness:
  "is_file images_only_site [''/'', ''site'', ''a'', ''x.jpg'']
   \<and> \<not> is_file (fst (main site_world (run_args False False True) images_only_site))
         [''/'', ''site'', ''a'', ''x.jpg'']
   \<and> is_file (fst (main site_world (run_args False False True) images_only_site))
         [''/'', ''site'', ''b'', ''x.jpg'']
   \<and> delete_originals (run_args False False True)
   \<and> \<not> dry_run (run_args False False True)
   \<and> path_exists site_world (fst (main site_world (run_args False False True) images_only_site))
         [''/'', ''site'', ''a'', ''x.webp'']"
proof -
  let ?a = "run_args False False True"
  let ?p = "[''/'', ''site'', ''a'', ''x.jpg'']"
  obtain fs' out where m: "main site_world ?a images_only_site = (fs', out)"
    by (cases "main site_world ?a images_only_site") auto
  have b: "is_file images_only_site ?p" by (simp add: is_file_def images_only_site_def)
  have fl: "files (fst (main site_world ?a images_only_site))
            = [[''/'', ''site'', ''b'', ''x.jpg''] \<mapsto> ''corrupt'',
               [''/'', ''site'', ''a'', ''x.webp''] \<mapsto> ''RIFFJPEGa'']"
    by (simp add: main_simps images_only_site_def site_simps run_simps eval_simps fun_upd_twist)
  have n: "\<not> is_file fs' ?p" using fl m by (simp add: is_file_def)
  have k: "is_file fs' [''/'', ''site'', ''b'', ''x.jpg'']" using fl m by (simp add: is_file_def)
  have ws: "with_suffix ?p ''.webp'' = Inr [''/'', ''site'', ''a'', ''x.webp'']"
    by (simp add: eval_simps)
  from originals_deleted_only_when_safe[OF m b n] ws b n k m show ?thesis by auto
qed

subsection \<open>The root directory\<close>

text \<open>
  Claim C4, as the code has it. The claim as stated fails: without \<^verbatim>\<open>--path\<close> (or with an
  empty one) the root is the directory that holds the script file, as
  \<^verbatim>\<open>get_script_directory\<close> and the help text of the option say, whatever the directory
  the program is invoked from.
\<close>

theorem default_root_is_script_directory:
  assumes "arg_path a = None \<or> arg_path a = Some []"
  shows "root_directory w a = parent (resolve w (script_file w))"
  using assms by (auto simp: root_directory_def get_script_directory_def)

theorem default_root_is_script_directory_witness:
  "arg_path ((run_args False False False)\<lparr>arg_path := None\<rparr>) = None
   \<and> root_directory site_world ((run_args False False False)\<lparr>arg_path := None\<rparr>)
       = parent (resolve site_world (script_file site_world))
   \<and> parent (resolve site_world (script_file site_world)) = [''/'', ''opt'', ''tools'']"
proof -
  have h: "arg_path ((run_args False False False)\<lparr>arg_path := None\<rparr>) = None
           \<or> arg_path ((run_args False False False)\<lparr>arg_path := None\<rparr>) = Some []"
    by simp
  have p: "parent (resolve site_world (script_file site_world)) = [''/'', ''opt'', ''tools'']"
    by (simp add: site_simps parent_def)
  from default_root_is_script_directory[OF h, of site_world] p show ?thesis by simp
qed

text \<open>
  The counterexample to C4 as stated: the script lies in \<^verbatim>\<open>/opt/tools\<close> and is invoked
  from \<^verbatim>\<open>/site\<close> without \<^verbatim>\<open>--path\<close>; the root is \<^verbatim>\<open>/opt/tools\<close>.
\<close>

theorem default_root_counterexample:
  "arg_path ((run_args False False False)\<lparr>arg_path := None\<rparr>) = None
   \<and> resolve site_world ''.'' = cwd site_world
   \<and> cwd site_world = [''/'', ''site'']
   \<and> root_directory site_world ((run_args False False False)\<lparr>arg_path := None\<rparr>)
       = [''/'', ''opt'', ''tools'']"
  by (simp add: root_directory_def get_script_directory_def site_simps parent_def)


subsection \<open>The rewrite rules\<close>

lemma sound_push:
  assumes "sound_caps is gs cs r" "\<And>cap. accepts is cap \<Longrightarrow> accepts js (c # cap)"
  shows "sound_caps js gs (c # cs) (push c r)"
  using assms by (cases r) (auto simp: sound_caps_def push_def neq_Nil_conv)

lemma sound_skip:
  assumes "sound_caps is gs s r" "\<And>cap. accepts is cap \<Longrightarrow> accepts js cap"
  shows "sound_caps js gs s r"
  using assms by (cases r) (auto simp: sound_caps_def)

lemma accepts_skip:
  "accepts is cap \<Longrightarrow> accepts (Opt a # is) cap"
  "accepts is cap \<Longrightarrow> accepts (Star a # is) cap"
  "accepts is cap \<Longrightarrow> accepts (LazyStar a # is) cap"
  by (cases cap; simp)+

lemma bt_sound: "bt is gs s = Some r \<Longrightarrow> sound_caps is gs s r"
proof (induction "is" gs s arbitrary: r rule: bt.induct)
  case (1 s)
  then show ?case by (auto simp: sound_caps_def)
next
  case (2 g gs s)
  from "2.prems" obtain caps rest where b: "bt g gs s = Some (caps, rest)" and r: "r = ([] # caps, rest)"
    by (auto split: option.splits)
  from "2.IH"[OF b] show ?case unfolding r
    by (cases caps) (auto simp: sound_caps_def)
next
  case (3 a "is" gs)
  then show ?case by simp
next
  case (4 a "is" gs c cs)
  from "4.prems" obtain r0 where ok: "atom_ok a c" and b: "bt is gs cs = Some r0" and r: "r = push c r0"
    by (auto split: if_splits)
  show ?case unfolding r by (rule sound_push[OF "4.IH"[OF ok b]]) (simp add: ok)
next
  case (5 a "is" gs)
  from "5.prems" have "bt is gs [] = Some r" by simp
  from "5.IH"[OF this] show ?case by (rule sound_skip) (rule accepts_skip)
next
  case (6 a "is" gs c cs)
  show ?case
  proof (cases "atom_ok a c \<and> bt is gs cs \<noteq> None")
    case True
    with "6.prems" obtain r0 where b: "bt is gs cs = Some r0" and r: "r = push c r0" by auto
    show ?thesis unfolding r
      by (rule sound_push[OF "6.IH"(1)[OF _ b]]) (use True in simp_all)
  next
    case False
    with "6.prems" have b: "bt is gs (c # cs) = Some r" by (auto split: if_splits option.splits)
    have "sound_caps is gs (c # cs) r"
    proof (cases "atom_ok a c")
      case True
      with False have "bt is gs cs = None" by blast
      from "6.IH"(2)[OF True this b] show ?thesis .
    next
      case False
      from "6.IH"(3)[OF False b] show ?thesis .
    qed
    then show ?thesis by (rule sound_skip) (rule accepts_skip)
  qed
next
  case (7 a "is" gs)
  from "7.prems" have "bt is gs [] = Some r" by simp
  from "7.IH"[OF this] show ?case by (rule sound_skip) (rule accepts_skip)
next
  case (8 a "is" gs c cs)
  show ?case
  proof (cases "atom_ok a c \<and> bt (Star a # is) gs cs \<noteq> None")
    case True
    with "8.prems" obtain r0 where b: "bt (Star a # is) gs cs = Some r0" and r: "r = push c r0" by auto
    show ?thesis unfolding r
      by (rule sound_push[OF "8.IH"(1)[OF _ b]]) (use True in simp_all)
  next
    case False
    with "8.prems" have b: "bt is gs (c # cs) = Some r" by (auto split: if_splits option.splits)
    have "sound_caps is gs (c # cs) r"
    proof (cases "atom_ok a c")
      case True
      with False have "bt (Star a # is) gs cs = None" by blast
      from "8.IH"(2)[OF True this b] show ?thesis .
    next
      case False
      from "8.IH"(3)[OF False b] show ?thesis .
    qed
    then show ?thesis by (rule sound_skip) (rule accepts_skip)
  qed
next
  case (9 a "is" gs)
  from "9.prems" have "bt is gs [] = Some r" by simp
  from "9.IH"[OF this] show ?case by (rule sound_skip) (rule accepts_skip)
next
  case (10 a "is" gs c cs)
  show ?case
  proof (cases "bt is gs (c # cs)")
    case (Some r1)
    with "10.prems" have "r = r1" by simp
    with "10.IH"(1)[OF Some] show ?thesis by (auto intro: sound_skip accepts_skip)
  next
    case None
    with "10.prems" obtain r0 where ok: "atom_ok a c"
      and b: "bt (LazyStar a # is) gs cs = Some r0" and r: "r = push c r0"
      by (auto split: if_splits)
    show ?thesis unfolding r
      by (rule sound_push[OF "10.IH"(2)[OF None ok b]]) (simp add: ok)
  qed
qed

lemma accepts_lits: "accepts (lits old) tok \<Longrightarrow> lower tok = lower old"
proof (induction old arbitrary: tok)
  case Nil then show ?case by (simp add: lits_def lower_def)
next
  case (Cons x xs)
  then show ?case by (cases tok) (auto simp: lits_def lower_def)
qed

lemma match_sound:
  assumes "match pat s = Some (caps, rest)" "pat \<noteq> []"
  shows "s = concat caps @ rest \<and> list_all2 accepts pat caps"
proof -
  from assms obtain g gs where p: "pat = g # gs" by (cases pat) auto
  with assms have "bt g gs s = Some (caps, rest)" by (simp add: match_def)
  from bt_sound[OF this] show ?thesis unfolding p
    by (cases caps) (auto simp: sound_caps_def)
qed

lemma source_Keep: "source (map Keep xs @ segs) = xs @ source segs"
  by (induction xs) auto

lemma target_Keep: "target new (map Keep xs @ segs) = xs @ target new segs"
  by (induction xs) auto

lemma tokens_Keep: "tokens (map Keep xs @ segs) = tokens segs"
  by (induction xs) auto

lemma subn_scan_segments:
  assumes shape: "\<And>s caps rest. match pat s = Some (caps, rest) \<Longrightarrow>
            \<exists>pre tok post. s = pre @ tok @ post @ rest \<and> lower tok = lower old
               \<and> expand tpl (take (length s - length rest) s) caps = pre @ new @ post"
  shows "\<exists>segs. source segs = s \<and> target new segs = fst (subn_scan pat tpl s)
           \<and> (\<forall>tok\<in>set (tokens segs). lower tok = lower old)
           \<and> length (tokens segs) = snd (subn_scan pat tpl s)"
proof (induction s rule: length_induct)
  case (1 s)
  let ?P = "\<lambda>s segs. source segs = s \<and> target new segs = fst (subn_scan pat tpl s)
           \<and> (\<forall>tok\<in>set (tokens segs). lower tok = lower old)
           \<and> length (tokens segs) = snd (subn_scan pat tpl s)"
  have copy: "\<exists>segs. ?P s segs"
    if eq: "subn_scan pat tpl s =
            (case s of [] \<Rightarrow> ([], 0)
             | c # cs \<Rightarrow> (case subn_scan pat tpl cs of (out, n) \<Rightarrow> (c # out, n)))"
  proof (cases s)
    case Nil
    with eq have "?P s []" by simp
    then show ?thesis by blast
  next
    case (Cons c cs)
    with 1 obtain segs where "?P cs segs" by auto
    with eq Cons have "?P s (Keep c # segs)" by (auto split: prod.splits)
    then show ?thesis by blast
  qed
  show ?case
  proof (cases "match pat s")
    case None
    then show ?thesis by (intro copy) (subst subn_scan.simps, simp)
  next
    case (Some r)
    obtain caps rest where r: "r = (caps, rest)" by (cases r)
    show ?thesis
    proof (cases "length rest < length s")
      case False
      with Some r show ?thesis by (intro copy) (subst subn_scan.simps, simp)
    next
      case True
      from shape[OF Some[unfolded r]] obtain pre tok post where
        s: "s = pre @ tok @ post @ rest" and tok: "lower tok = lower old" and
        ex: "expand tpl (take (length s - length rest) s) caps = pre @ new @ post"
        by blast
      from 1 True obtain segs where segs: "?P rest segs" by blast
      have eq: "subn_scan pat tpl s =
                (case subn_scan pat tpl rest of
                   (out, n) \<Rightarrow> (expand tpl (take (length s - length rest) s) caps @ out, Suc n))"
        using Some r True by (subst subn_scan.simps) simp
      let ?segs = "map Keep pre @ Subst tok # map Keep post @ segs"
      have "source ?segs = s" using segs s by (simp add: source_Keep)
      moreover have "target new ?segs = fst (subn_scan pat tpl s)"
        using segs by (simp add: eq ex target_Keep split: prod.splits)
      moreover have "\<forall>t\<in>set (tokens ?segs). lower t = lower old"
        using segs tok by (simp add: tokens_Keep)
      moreover have "length (tokens ?segs) = snd (subn_scan pat tpl s)"
        using segs by (simp add: eq tokens_Keep split: prod.splits)
      ultimately show ?thesis by blast
    qed
  qed
qed

lemmas char_simps = bslash_def digit_def octdigit_def ascii_letter_def digit_val_def

lemma parse_literals:
  assumes "bslash \<notin> set xs"
  shows "parse_template g (xs @ bslash # e # r)
         = (case parse_template g (bslash # e # r) of
              Inl err \<Rightarrow> Inl err | Inr ps \<Rightarrow> Inr (map TLit xs @ ps))"
  using assms
proof (induction xs)
  case Nil then show ?case by (simp split: sum.splits)
next
  case (Cons x xs)
  then have x: "x \<noteq> bslash" and ih: "parse_template g (xs @ bslash # e # r)
         = (case parse_template g (bslash # e # r) of
              Inl err \<Rightarrow> Inl err | Inr ps \<Rightarrow> Inr (map TLit xs @ ps))" by auto
  obtain y ys where ys: "xs @ bslash # e # r = y # ys" by (cases "xs @ bslash # e # r") auto
  have "parse_template g ((x # xs) @ bslash # e # r) = lit x (parse_template g (xs @ bslash # e # r))"
    using x by (simp add: ys)
  then show ?case by (simp add: ih lit_def split: sum.splits)
qed

lemma parse_last_group:
  "digit k \<Longrightarrow> digit_val k \<le> g \<Longrightarrow> k \<noteq> CHR ''0''
   \<Longrightarrow> parse_template g [bslash, k] = Inr [TGroup (digit_val k)]"
  by (auto simp: grp_def char_simps)

lemma parse_group_then:
  assumes "digit k" "k \<noteq> CHR ''0''" "digit_val k \<le> g" "case r of [] \<Rightarrow> True | c # cs \<Rightarrow> \<not> digit c"
  shows "parse_template g (bslash # k # r)
         = (case parse_template g r of Inl err \<Rightarrow> Inl err | Inr ps \<Rightarrow> Inr (TGroup (digit_val k) # ps))"
proof -
  have kg: "k \<noteq> CHR ''g''" using assms(1) by (auto simp: char_simps)
  show ?thesis using assms kg
    by (cases r) (auto simp: grp_def split: sum.splits)
qed

lemma plain_tail:
  assumes "plain_name new"
  shows "case new @ [bslash, k] of [] \<Rightarrow> True | c # cs \<Rightarrow> \<not> digit c"
  using assms by (cases new) (auto simp: plain_name_def char_simps)

lemma parse_plain:
  assumes "plain_name new" "digit k" "k \<noteq> CHR ''0''" "digit_val k \<le> g"
  shows "parse_template g (new @ [bslash, k]) = Inr (map TLit new @ [TGroup (digit_val k)])"
  using parse_literals[of new g k "[]"] parse_last_group[OF assms(2,4,3)] assms(1)
  by (simp add: plain_name_def)

lemma parse_replacement_quoted:
  assumes "plain_name new"
  shows "parse_template 4 (replacement_quoted new)
         = Inr ([TGroup 1, TGroup 2] @ map TLit new @ [TGroup 4])"
proof -
  have d: "digit (CHR ''1'')" "digit (CHR ''2'')" "digit (CHR ''4'')"
    "digit_val (CHR ''1'') = 1" "digit_val (CHR ''2'') = 2" "digit_val (CHR ''4'') = 4"
    by (simp_all add: char_simps)
  have 3: "parse_template 4 (new @ [bslash, CHR ''4'']) = Inr (map TLit new @ [TGroup 4])"
    using parse_plain[OF assms d(3), of 4] d by simp
  have 2: "parse_template 4 (bslash # CHR ''2'' # new @ [bslash, CHR ''4''])
           = Inr (TGroup 2 # map TLit new @ [TGroup 4])"
    using parse_group_then[OF d(2) _ _ plain_tail[OF assms], of 4 "CHR ''4''"] d 3 by simp
  have 1: "parse_template 4 (bslash # CHR ''1'' # bslash # CHR ''2'' # new @ [bslash, CHR ''4''])
           = Inr (TGroup 1 # TGroup 2 # map TLit new @ [TGroup 4])"
    using parse_group_then[OF d(1), of 4 "bslash # CHR ''2'' # new @ [bslash, CHR ''4'']"] d 2
    by (simp add: char_simps)
  then show ?thesis by (simp add: replacement_quoted_def)
qed

lemma parse_replacement_markdown:
  assumes "plain_name new"
  shows "parse_template 4 (replacement_markdown new)
         = Inr ([TGroup 1, TGroup 2] @ map TLit new @ [TGroup 4])"
  using parse_replacement_quoted[OF assms]
  by (simp add: replacement_quoted_def replacement_markdown_def)

lemma parse_replacement_url:
  assumes "plain_name new"
  shows "parse_template 5 (replacement_url new)
         = Inr ([TGroup 1, TGroup 2, TGroup 3] @ map TLit new @ [TGroup 5])"
proof -
  have d: "digit (CHR ''1'')" "digit (CHR ''2'')" "digit (CHR ''3'')" "digit (CHR ''5'')"
    "digit_val (CHR ''1'') = 1" "digit_val (CHR ''2'') = 2" "digit_val (CHR ''3'') = 3"
    "digit_val (CHR ''5'') = 5"
    by (simp_all add: char_simps)
  have 4: "parse_template 5 (new @ [bslash, CHR ''5'']) = Inr (map TLit new @ [TGroup 5])"
    using parse_plain[OF assms d(4), of 5] d by simp
  have 3: "parse_template 5 (bslash # CHR ''3'' # new @ [bslash, CHR ''5''])
           = Inr (TGroup 3 # map TLit new @ [TGroup 5])"
    using parse_group_then[OF d(3) _ _ plain_tail[OF assms], of 5 "CHR ''5''"] d 4 by simp
  have 2: "parse_template 5 (bslash # CHR ''2'' # bslash # CHR ''3'' # new @ [bslash, CHR ''5''])
           = Inr (TGroup 2 # TGroup 3 # map TLit new @ [TGroup 5])"
    using parse_group_then[OF d(2), of 5 "bslash # CHR ''3'' # new @ [bslash, CHR ''5'']"] d 3
    by (simp add: char_simps)
  have 1: "parse_template 5 (bslash # CHR ''1'' # bslash # CHR ''2'' # bslash # CHR ''3'' # new @ [bslash, CHR ''5''])
           = Inr (TGroup 1 # TGroup 2 # TGroup 3 # map TLit new @ [TGroup 5])"
    using parse_group_then[OF d(1), of 5 "bslash # CHR ''2'' # bslash # CHR ''3'' # new @ [bslash, CHR ''5'']"] d 2
    by (simp add: char_simps)
  then show ?thesis by (simp add: replacement_url_def)
qed

lemma expand_lits: "expand (map TLit xs @ ps) whole caps = xs @ expand ps whole caps"
  by (induction xs) auto

lemma shape4:
  assumes m: "match [g1, g2, lits old, g4] s = Some (caps, rest)"
  shows "\<exists>pre tok post. s = pre @ tok @ post @ rest \<and> lower tok = lower old
           \<and> expand ([TGroup 1, TGroup 2] @ map TLit new @ [TGroup 4]) whole caps = pre @ new @ post"
proof -
  from match_sound[OF m] have s: "s = concat caps @ rest"
    and a: "list_all2 accepts [g1, g2, lits old, g4] caps" by auto
  from a obtain c1 c2 c3 c4 where caps: "caps = [c1, c2, c3, c4]" and t: "accepts (lits old) c3"
    by (auto simp: list_all2_Cons1)
  have "expand ([TGroup 1, TGroup 2] @ map TLit new @ [TGroup 4]) whole caps = (c1 @ c2) @ new @ c4"
    by (simp add: caps expand_lits)
  moreover have "s = (c1 @ c2) @ c3 @ c4 @ rest" using s caps by simp
  ultimately show ?thesis using accepts_lits[OF t] by blast
qed

lemma shape5:
  assumes m: "match [g1, g2, g3, lits old, g5] s = Some (caps, rest)"
  shows "\<exists>pre tok post. s = pre @ tok @ post @ rest \<and> lower tok = lower old
           \<and> expand ([TGroup 1, TGroup 2, TGroup 3] @ map TLit new @ [TGroup 5]) whole caps
               = pre @ new @ post"
proof -
  from match_sound[OF m] have s: "s = concat caps @ rest"
    and a: "list_all2 accepts [g1, g2, g3, lits old, g5] caps" by auto
  from a obtain c1 c2 c3 c4 c5 where caps: "caps = [c1, c2, c3, c4, c5]" and t: "accepts (lits old) c4"
    by (auto simp: list_all2_Cons1)
  have "expand ([TGroup 1, TGroup 2, TGroup 3] @ map TLit new @ [TGroup 5]) whole caps
        = (c1 @ c2 @ c3) @ new @ c5"
    by (simp add: caps expand_lits)
  moreover have "s = (c1 @ c2 @ c3) @ c4 @ c5 @ rest" using s caps by simp
  ultimately show ?thesis using accepts_lits[OF t] by blast
qed

lemma patterns_consume:
  assumes "(pattern, replacement) \<in> set (patterns old_name new_name)"
    and m: "match pattern s = Some (caps, rest)"
  shows "length rest < length s"
proof -
  from assms(1) obtain a g gs where p: "pattern = (One a # g) # gs"
    by (auto simp: patterns_def pattern_quoted_def pattern_url_def pattern_markdown_def lits_def)
  from match_sound[OF m] p have "s = concat caps @ rest"
    and "list_all2 accepts ((One a # g) # gs) caps" by auto
  then obtain c cs where "caps = c # cs" "accepts (One a # g) c"
    by (auto simp: list_all2_Cons1)
  then have "c \<noteq> []" by (cases c) auto
  with \<open>caps = c # cs\<close> \<open>s = concat caps @ rest\<close> show ?thesis by auto
qed

lemma rule_from_shape:
  assumes p: "parse_template (length pat) repl = Inr tpl"
    and shape: "\<And>s caps rest. match pat s = Some (caps, rest) \<Longrightarrow>
            \<exists>pre tok post. s = pre @ tok @ post @ rest \<and> lower tok = lower old
               \<and> expand tpl (take (length s - length rest) s) caps = pre @ new @ post"
  shows "\<exists>segs. source segs = content
           \<and> (\<forall>tok \<in> set (tokens segs). lower tok = lower old)
           \<and> subn pat repl content = Inr (target new segs, length (tokens segs))"
proof -
  from subn_scan_segments[of pat old tpl new content, OF shape]
  obtain segs where s: "source segs = content"
      "target new segs = fst (subn_scan pat tpl content)"
      "\<forall>tok\<in>set (tokens segs). lower tok = lower old"
      "length (tokens segs) = snd (subn_scan pat tpl content)"
    by blast
  have "subn pat repl content = Inr (target new segs, length (tokens segs))"
    by (simp add: subn_def p s(2,4))
  with s(1,3) show ?thesis by blast
qed

lemma quoted_rule:
  assumes "plain_name new"
  shows "\<exists>segs. source segs = content
           \<and> (\<forall>tok \<in> set (tokens segs). lower tok = lower old)
           \<and> subn (pattern_quoted old) (replacement_quoted new) content
               = Inr (target new segs, length (tokens segs))"
proof (rule rule_from_shape)
  show "parse_template (length (pattern_quoted old)) (replacement_quoted new)
        = Inr ([TGroup 1, TGroup 2] @ map TLit new @ [TGroup 4])"
  proof -
    have "length (pattern_quoted old) = 4" by (simp add: pattern_quoted_def)
    then show ?thesis using parse_replacement_quoted[OF assms] by (simp only:)
  qed
next
  fix s caps rest assume "match (pattern_quoted old) s = Some (caps, rest)"
  then show "\<exists>pre tok post. s = pre @ tok @ post @ rest \<and> lower tok = lower old
     \<and> expand ([TGroup 1, TGroup 2] @ map TLit new @ [TGroup 4]) (take (length s - length rest) s) caps
         = pre @ new @ post"
    unfolding pattern_quoted_def by (rule shape4)
qed

lemma markdown_rule:
  assumes "plain_name new"
  shows "\<exists>segs. source segs = content
           \<and> (\<forall>tok \<in> set (tokens segs). lower tok = lower old)
           \<and> subn (pattern_markdown old) (replacement_markdown new) content
               = Inr (target new segs, length (tokens segs))"
proof (rule rule_from_shape)
  show "parse_template (length (pattern_markdown old)) (replacement_markdown new)
        = Inr ([TGroup 1, TGroup 2] @ map TLit new @ [TGroup 4])"
  proof -
    have "length (pattern_markdown old) = 4" by (simp add: pattern_markdown_def)
    then show ?thesis using parse_replacement_markdown[OF assms] by (simp only:)
  qed
next
  fix s caps rest assume "match (pattern_markdown old) s = Some (caps, rest)"
  then show "\<exists>pre tok post. s = pre @ tok @ post @ rest \<and> lower tok = lower old
     \<and> expand ([TGroup 1, TGroup 2] @ map TLit new @ [TGroup 4]) (take (length s - length rest) s) caps
         = pre @ new @ post"
    unfolding pattern_markdown_def by (rule shape4)
qed

lemma url_rule:
  assumes "plain_name new"
  shows "\<exists>segs. source segs = content
           \<and> (\<forall>tok \<in> set (tokens segs). lower tok = lower old)
           \<and> subn (pattern_url old) (replacement_url new) content
               = Inr (target new segs, length (tokens segs))"
proof (rule rule_from_shape)
  show "parse_template (length (pattern_url old)) (replacement_url new)
        = Inr ([TGroup 1, TGroup 2, TGroup 3] @ map TLit new @ [TGroup 5])"
  proof -
    have "length (pattern_url old) = 5" by (simp add: pattern_url_def)
    then show ?thesis using parse_replacement_url[OF assms] by (simp only:)
  qed
next
  fix s caps rest assume "match (pattern_url old) s = Some (caps, rest)"
  then show "\<exists>pre tok post. s = pre @ tok @ post @ rest \<and> lower tok = lower old
     \<and> expand ([TGroup 1, TGroup 2, TGroup 3] @ map TLit new @ [TGroup 5]) (take (length s - length rest) s) caps
         = pre @ new @ post"
    unfolding pattern_url_def by (rule shape5)
qed

text \<open>
  Claim C1, as the code has it. The claim as stated fails: the group before the filename
  matches any run of characters that are not delimiters, not only a directory prefix, so
  an occurrence of the old name at the end of a longer filename is replaced too. What
  holds, for a new name that is plain: each of the three rules changes the text only by
  replacing occurrences of the old name (compared case-insensitively) by the new name;
  every other character, the captured prefix and the delimiters among them, stays where
  it is, and the count is the number of occurrences replaced.
\<close>

theorem rules_replace_only_the_filename:
  assumes plain: "plain_name new_name"
    and rule: "(pattern, replacement) \<in> set (patterns old_name new_name)"
  shows "\<exists>segs. source segs = content
           \<and> (\<forall>tok \<in> set (tokens segs). lower tok = lower old_name)
           \<and> subn pattern replacement content = Inr (target new_name segs, length (tokens segs))"
proof -
  from rule consider
      (quoted) "pattern = pattern_quoted old_name" "replacement = replacement_quoted new_name"
    | (url) "pattern = pattern_url old_name" "replacement = replacement_url new_name"
    | (markdown) "pattern = pattern_markdown old_name" "replacement = replacement_markdown new_name"
    unfolding patterns_def by auto
  then show ?thesis
  proof cases
    case quoted
    show ?thesis unfolding quoted by (rule quoted_rule[OF plain])
  next
    case url
    show ?thesis unfolding url by (rule url_rule[OF plain])
  next
    case markdown
    show ?thesis unfolding markdown by (rule markdown_rule[OF plain])
  qed
qed

theorem rules_replace_only_the_filename_witness:
  "plain_name ''photo.webp''
   \<and> (pattern_quoted ''photo.jpg'', replacement_quoted ''photo.webp'')
       \<in> set (patterns ''photo.jpg'' ''photo.webp'')
   \<and> (\<exists>segs. source segs = ''src='' @ [CHR 0x22] @ ''/assets/img/Photo.JPG'' @ [CHR 0x22]
         \<and> target ''photo.webp'' segs = ''src='' @ [CHR 0x22] @ ''/assets/img/photo.webp'' @ [CHR 0x22]
         \<and> length (tokens segs) = 1
         \<and> (\<forall>tok \<in> set (tokens segs). lower tok = lower ''photo.jpg''))"
proof -
  let ?c = "''src='' @ [CHR 0x22] @ ''/assets/img/Photo.JPG'' @ [CHR 0x22]"
  have p: "plain_name ''photo.webp''" by (simp add: plain_name_def char_simps)
  have r: "(pattern_quoted ''photo.jpg'', replacement_quoted ''photo.webp'')
       \<in> set (patterns ''photo.jpg'' ''photo.webp'')" by (simp add: patterns_def)
  have v: "subn (pattern_quoted ''photo.jpg'') (replacement_quoted ''photo.webp'') ?c
           = Inr (''src='' @ [CHR 0x22] @ ''/assets/img/photo.webp'' @ [CHR 0x22], 1)"
    by code_simp
  from rules_replace_only_the_filename[OF p r, of ?c] obtain segs where
    s: "source segs = ?c" "\<forall>tok \<in> set (tokens segs). lower tok = lower ''photo.jpg''"
       "subn (pattern_quoted ''photo.jpg'') (replacement_quoted ''photo.webp'') ?c
        = Inr (target ''photo.webp'' segs, length (tokens segs))"
    by blast
  from s(3) v have t: "target ''photo.webp'' segs = ''src='' @ [CHR 0x22] @ ''/assets/img/photo.webp'' @ [CHR 0x22]"
    and l: "length (tokens segs) = 1" by simp_all
  from p r s(1,2) t l show ?thesis by blast
qed

text \<open>
  The counterexample to C1 as stated: under the mapping of \<open>photo.jpg\<close> to
  \<open>photo.webp\<close> the quoted reference to \<open>my-photo.jpg\<close> is rewritten.
\<close>

theorem longer_filename_counterexample:
  "rewrite_mappings [(''photo.jpg'', ''photo.webp'')]
     (''<img src='' @ [CHR 0x22] @ ''my-photo.jpg'' @ [CHR 0x22] @ ''>'', 0)
   = Inr (''<img src='' @ [CHR 0x22] @ ''my-photo.webp'' @ [CHR 0x22] @ ''>'', 1)"
  by code_simp

text \<open>
  Why the new name has to be plain: after the reference to group 2 a leading digit of the
  new name is read as part of the group number, and the template parser raises.
\<close>

lemma leading_digit_raises:
  "subn (pattern_quoted old_name) (replacement_quoted ''1.webp'') content = Inl TemplateError"
proof -
  have "length (pattern_quoted old_name) = 4" by (simp add: pattern_quoted_def)
  then show ?thesis
    by (simp add: subn_def replacement_quoted_def grp_def lit_def char_simps)
qed


end
